theory Spec2Isabelle
  imports Complex_Main "HOL-Library.Multiset" "HOL-Library.Char_ord" "HOL-Library.List_Lexorder"
begin

section \<open>Data model of src/pages/Index.tsx\<close>

text \<open>
  The page component keeps the uploaded clips and the generated sequences in React state.
  A clip's \<open>type\<close> is one of three string literals; its \<open>file\<close> is optional.
  JavaScript numbers are modelled by reals: clip durations and the values of
  \<open>Math.random()\<close> are reals, array lengths and indices are naturals. Where the
  rounding of doubles can change an integer result, in \<open>binomialCoefficient\<close>, the
  rounding is a parameter \<open>fl\<close> of the model: \<open>fl x\<close> stands for the double nearest
  to \<open>x\<close>, and nothing is assumed about it.
  File contents (binary or text) are strings.
\<close>

datatype clip_type = Hook | SellingPoint | Cta

type_synonym filedata = string

record VideoClip =
  clip_id :: string
  clip_name :: string
  clip_duration :: real
  clip_type :: clip_type
  clip_file :: "filedata option"

record Sequence =
  seq_id :: string
  seq_clips :: "VideoClip list"
  seq_duration :: real

section \<open>Decimal rendering of array indices in template strings\<close>

definition digit_char :: "nat \<Rightarrow> char" where
  "digit_char d = ''0123456789'' ! d"

fun show_nat :: "nat \<Rightarrow> string" where
  "show_nat n = (if n < 10 then [digit_char n] else show_nat (n div 10) @ [digit_char (n mod 10)])"

declare show_nat.simps [simp del]

section \<open>The sequence generator\<close>

text \<open>
  \<open>binomialCoefficient\<close>: the loop multiplies \<open>result\<close> by \<open>(n + 1 - i) / i\<close> for
  \<open>i = 1 .. k\<close> and the function returns \<open>Math.floor(result)\<close>. The quotient and the
  product are doubles, so each is rounded: for \<open>n = 15\<close> and \<open>k = 3\<close> the code
  computes \<open>105 * (13 / 3)\<close>, a double just below 455, and returns 454.
\<close>

function binomial_loop :: "(real \<Rightarrow> real) \<Rightarrow> nat \<Rightarrow> nat \<Rightarrow> nat \<Rightarrow> real \<Rightarrow> real" where
  "binomial_loop fl n k i result =
     (if i \<le> k
      then binomial_loop fl n k (i + 1) (fl (result * fl ((real n + 1 - real i) / real i)))
      else result)"
  by pat_completeness auto
termination
  by (relation "measure (\<lambda>(fl, n, k, i, result). k + 1 - i)") auto

declare binomial_loop.simps [simp del]

definition binomialCoefficient :: "(real \<Rightarrow> real) \<Rightarrow> nat \<Rightarrow> nat \<Rightarrow> nat" where
  "binomialCoefficient fl n k =
     (if k > n then 0
      else if k = 0 \<or> k = n then 1
      else nat \<lfloor>binomial_loop fl n k 1 1\<rfloor>)"

text \<open>\<open>Math.floor(Math.random() * n)\<close>, for the value \<open>r\<close> that \<open>Math.random()\<close> returned.\<close>

definition randInt :: "real \<Rightarrow> nat \<Rightarrow> nat" where
  "randInt r n = nat \<lfloor>r * real n\<rfloor>"

text \<open>
  The source of randomness is the sequence \<open>rnd 0, rnd 1, ...\<close> of the values returned by
  successive calls of \<open>Math.random()\<close>; a counter says which call is next.
  \<open>Math.random()\<close> returns values in \<open>[0, 1)\<close>.
\<close>

definition valid_rnd :: "(nat \<Rightarrow> real) \<Rightarrow> bool" where
  "valid_rnd rnd \<longleftrightarrow> (\<forall>k. 0 \<le> rnd k \<and> rnd k < 1)"

text \<open>
  The Fisher-Yates loop \<open>for (let i = a.length - 1; i > 0; i--)\<close>: draw
  \<open>j = Math.floor(Math.random() * (i + 1))\<close> and swap \<open>a[i]\<close> with \<open>a[j]\<close>.
  The first argument after the counter is the loop variable \<open>i\<close>.
\<close>

fun shuffle_loop :: "(nat \<Rightarrow> real) \<Rightarrow> nat \<Rightarrow> nat \<Rightarrow> nat list \<Rightarrow> nat list \<times> nat" where
  "shuffle_loop rnd c 0 a = (a, c)"
| "shuffle_loop rnd c (Suc i) a =
     (let j = randInt (rnd c) (Suc i + 1)
      in shuffle_loop rnd (c + 1) i (a[Suc i := a ! j, j := a ! Suc i]))"

text \<open>\<open>Array.prototype.join\<close> on an array of strings.\<close>

fun join :: "string \<Rightarrow> string list \<Rightarrow> string" where
  "join sep [] = []"
| "join sep [x] = x"
| "join sep (x # y # ys) = x @ sep @ join sep (y # ys)"

text \<open>
  The deduplication key of a selection: the hook's id, the selling points' ids sorted
  (the default sort of strings, by code units), the call-to-action's id, joined by a bar.
\<close>

definition combinationKey :: "VideoClip \<Rightarrow> VideoClip list \<Rightarrow> VideoClip \<Rightarrow> string" where
  "combinationKey selectedHook selectedSellingPoints selectedCTA =
     join ''|'' ([clip_id selectedHook] @ sort (map clip_id selectedSellingPoints)
                 @ [clip_id selectedCTA])"

text \<open>
  One pass through the body of the while loop up to the membership test: the clips drawn
  (hook, selling points in shuffle order, call to action) and the counter of the random
  source afterwards.
\<close>

definition draw :: "(nat \<Rightarrow> real) \<Rightarrow> nat \<Rightarrow> VideoClip list \<Rightarrow> VideoClip list \<Rightarrow> VideoClip list
    \<Rightarrow> nat \<Rightarrow> (VideoClip \<times> VideoClip list \<times> VideoClip) \<times> nat" where
  "draw rnd c hooks sellingPoints ctas maxSellingPoints =
     (let selectedHook = hooks ! randInt (rnd c) (length hooks);
          selectedCTA = ctas ! randInt (rnd (c + 1)) (length ctas);
          numSellingPoints = min (randInt (rnd (c + 2)) maxSellingPoints + 1) (length sellingPoints);
          (shuffledIndices, c') =
             shuffle_loop rnd (c + 3) (length sellingPoints - 1) [0..<length sellingPoints];
          selectedSellingPoints = map (\<lambda>index. sellingPoints ! index)
                                      (take numSellingPoints shuffledIndices)
      in ((selectedHook, selectedSellingPoints, selectedCTA), c'))"

definition totalDuration :: "VideoClip list \<Rightarrow> real" where
  "totalDuration sequenceClips = foldl (\<lambda>acc clip. acc + clip_duration clip) 0 sequenceClips"

definition maxAttempts :: nat where
  "maxAttempts = 100"

text \<open>
  The while loop. Its state is the list of new sequences, the set of used keys, the number
  of attempts and the counter of the random source.
\<close>

function gen_loop :: "(nat \<Rightarrow> real) \<Rightarrow> VideoClip list \<Rightarrow> VideoClip list \<Rightarrow> VideoClip list
    \<Rightarrow> nat \<Rightarrow> nat \<Rightarrow> Sequence list \<Rightarrow> string set \<Rightarrow> nat \<Rightarrow> nat \<Rightarrow> Sequence list \<times> nat" where
  "gen_loop rnd hooks sellingPoints ctas maxSellingPoints targetSequences
            newSequences usedCombinations attempts c =
     (if length newSequences < targetSequences \<and> attempts < maxAttempts then
        (case draw rnd c hooks sellingPoints ctas maxSellingPoints of
           ((selectedHook, selectedSellingPoints, selectedCTA), c') \<Rightarrow>
             (if combinationKey selectedHook selectedSellingPoints selectedCTA \<notin> usedCombinations
              then
                (let sequenceClips = [selectedHook] @ selectedSellingPoints @ [selectedCTA]
                 in gen_loop rnd hooks sellingPoints ctas maxSellingPoints targetSequences
                      (newSequences @
                         [\<lparr>seq_id = ''sequence-'' @ show_nat (length newSequences + 1),
                           seq_clips = sequenceClips,
                           seq_duration = totalDuration sequenceClips\<rparr>])
                      (insert (combinationKey selectedHook selectedSellingPoints selectedCTA)
                         usedCombinations)
                      (attempts + 1) c')
              else gen_loop rnd hooks sellingPoints ctas maxSellingPoints targetSequences
                     newSequences usedCombinations (attempts + 1) c'))
      else (newSequences, attempts))"
  by pat_completeness auto
termination
  by (relation "measure (\<lambda>(rnd, hooks, sellingPoints, ctas, maxSellingPoints, targetSequences,
                            newSequences, usedCombinations, attempts, c). maxAttempts - attempts)")
     auto

declare gen_loop.simps [simp del]

text \<open>
  The states that the while loop passes through: the state before the first attempt, and
  the state after one more pass from a state in which the loop condition holds. A pass
  stores the drawn selection when its key is not in the set, and discards it otherwise.
\<close>

inductive gen_reach :: "(nat \<Rightarrow> real) \<Rightarrow> VideoClip list \<Rightarrow> VideoClip list \<Rightarrow> VideoClip list
    \<Rightarrow> nat \<Rightarrow> nat \<Rightarrow> Sequence list \<Rightarrow> string set \<Rightarrow> nat \<Rightarrow> nat \<Rightarrow> bool"
  for rnd hooks sellingPoints ctas maxSellingPoints targetSequences
where
  reach_start:
    "gen_reach rnd hooks sellingPoints ctas maxSellingPoints targetSequences [] {} 0 0"
| reach_keep:
    "gen_reach rnd hooks sellingPoints ctas maxSellingPoints targetSequences
       newSequences usedCombinations attempts c \<Longrightarrow>
     length newSequences < targetSequences \<and> attempts < maxAttempts \<Longrightarrow>
     draw rnd c hooks sellingPoints ctas maxSellingPoints
       = ((selectedHook, selectedSellingPoints, selectedCTA), c') \<Longrightarrow>
     combinationKey selectedHook selectedSellingPoints selectedCTA \<notin> usedCombinations \<Longrightarrow>
     gen_reach rnd hooks sellingPoints ctas maxSellingPoints targetSequences
       (newSequences @
          [\<lparr>seq_id = ''sequence-'' @ show_nat (length newSequences + 1),
            seq_clips = [selectedHook] @ selectedSellingPoints @ [selectedCTA],
            seq_duration = totalDuration ([selectedHook] @ selectedSellingPoints @ [selectedCTA])\<rparr>])
       (insert (combinationKey selectedHook selectedSellingPoints selectedCTA) usedCombinations)
       (attempts + 1) c'"
| reach_discard:
    "gen_reach rnd hooks sellingPoints ctas maxSellingPoints targetSequences
       newSequences usedCombinations attempts c \<Longrightarrow>
     length newSequences < targetSequences \<and> attempts < maxAttempts \<Longrightarrow>
     draw rnd c hooks sellingPoints ctas maxSellingPoints
       = ((selectedHook, selectedSellingPoints, selectedCTA), c') \<Longrightarrow>
     combinationKey selectedHook selectedSellingPoints selectedCTA \<in> usedCombinations \<Longrightarrow>
     gen_reach rnd hooks sellingPoints ctas maxSellingPoints targetSequences
       newSequences usedCombinations (attempts + 1) c'"

definition maxSellingPoints_of :: "VideoClip list \<Rightarrow> nat" where
  "maxSellingPoints_of sellingPoints = min 3 (length sellingPoints)"

text \<open>
  \<open>Array.from({length: maxSellingPoints}, (_, i) => binomialCoefficient(n, i + 1))
  .reduce((a, b) => a + b, 0)\<close>, times the numbers of hooks and of calls to action.
\<close>

definition maxCombinations :: "(real \<Rightarrow> real) \<Rightarrow> VideoClip list \<Rightarrow> VideoClip list
    \<Rightarrow> VideoClip list \<Rightarrow> nat" where
  "maxCombinations fl hooks sellingPoints ctas =
     length hooks * length ctas *
       foldl (\<lambda>a b. a + b) 0
         (map (\<lambda>i. binomialCoefficient fl (length sellingPoints) (i + 1))
              [0..<maxSellingPoints_of sellingPoints])"

definition targetSequences_of :: "(real \<Rightarrow> real) \<Rightarrow> VideoClip list \<Rightarrow> VideoClip list
    \<Rightarrow> VideoClip list \<Rightarrow> nat" where
  "targetSequences_of fl hooks sellingPoints ctas =
     min 10 (maxCombinations fl hooks sellingPoints ctas)"

datatype gen_error = EmptyInput | MissingRole

text \<open>
  \<open>generateSequences\<close> as a function of the rounding, the random source and the
  available clips.
  The two guarded early returns (each shows an error toast and leaves the sequences
  untouched) are the two errors; otherwise the result is the list passed to
  \<open>setSequences\<close>.
\<close>

definition generate :: "(real \<Rightarrow> real) \<Rightarrow> (nat \<Rightarrow> real) \<Rightarrow> VideoClip list
    \<Rightarrow> gen_error + Sequence list" where
  "generate fl rnd availableClips =
     (if length availableClips = 0 then Inl EmptyInput
      else
        (let hooks = filter (\<lambda>clip. clip_type clip = Hook) availableClips;
             sellingPoints = filter (\<lambda>clip. clip_type clip = SellingPoint) availableClips;
             ctas = filter (\<lambda>clip. clip_type clip = Cta) availableClips
         in if length hooks = 0 \<or> length ctas = 0 then Inl MissingRole
            else Inr (fst (gen_loop rnd hooks sellingPoints ctas
                             (maxSellingPoints_of sellingPoints)
                             (targetSequences_of fl hooks sellingPoints ctas) [] {} 0 0))))"

section \<open>Notions used to state the properties of the generator\<close>

text \<open>
  A selection of selling points: the pool's elements at pairwise different positions,
  at least one when the pool is not empty, at most three and at most the pool's size.
\<close>

definition picks :: "VideoClip list \<Rightarrow> VideoClip list \<Rightarrow> bool" where
  "picks sellingPoints sel \<longleftrightarrow>
     (\<exists>idxs. sel = map (\<lambda>index. sellingPoints ! index) idxs \<and> distinct idxs \<and>
        (\<forall>i \<in> set idxs. i < length sellingPoints) \<and>
        (sellingPoints \<noteq> [] \<longrightarrow> 1 \<le> length idxs) \<and>
        length idxs \<le> min 3 (length sellingPoints))"

text \<open>The key under which a stored sequence was registered, read back from its clips.\<close>

definition seq_key :: "Sequence \<Rightarrow> string" where
  "seq_key s = combinationKey (hd (seq_clips s)) (butlast (tl (seq_clips s))) (last (seq_clips s))"

definition shaped :: "VideoClip list \<Rightarrow> VideoClip list \<Rightarrow> VideoClip list \<Rightarrow> Sequence \<Rightarrow> bool" where
  "shaped hooks sellingPoints ctas s \<longleftrightarrow>
     (\<exists>h sel ct. seq_clips s = [h] @ sel @ [ct] \<and> h \<in> set hooks \<and> picks sellingPoints sel \<and>
        ct \<in> set ctas \<and> seq_duration s = totalDuration (seq_clips s))"

definition seqs_ok :: "VideoClip list \<Rightarrow> VideoClip list \<Rightarrow> VideoClip list \<Rightarrow> Sequence list \<Rightarrow> bool" where
  "seqs_ok hooks sellingPoints ctas seqs \<longleftrightarrow>
     (\<forall>s \<in> set seqs. shaped hooks sellingPoints ctas s) \<and> distinct (map seq_key seqs)"

text \<open>
  The combination signature of the specification: the hook's id, the set of the selling
  points' ids, and the call-to-action's id. The hook is the first clip of a sequence, the
  call to action the last, the selling points are the clips between them.
\<close>

definition signature :: "Sequence \<Rightarrow> string \<times> string set \<times> string" where
  "signature s =
     (clip_id (hd (seq_clips s)),
      set (map clip_id (butlast (tl (seq_clips s)))),
      clip_id (last (seq_clips s)))"

section \<open>The export pipeline\<close>

text \<open>
  The FFmpeg instance owns a virtual file system, a map from file names to contents.
  \<open>writeFile\<close> stores a file; \<open>readFile\<close> and \<open>deleteFile\<close> reject when the file is missing.
  \<open>exec\<close> is the external concatenation service: it is a parameter of the model, a
  function of the file system it finds. It either completes or rejects, and in both cases
  it may have written \<open>output.mp4\<close>; it touches no other file.
\<close>

type_synonym fsys = "string \<rightharpoonup> filedata"

datatype exec_outcome = ExecDone "filedata option" | ExecThrow string "filedata option"

text \<open>
  \<open>MissingFileError n\<close> is \<open>new Error(`Missing file for clip: ${n}`)\<close>;
  \<open>FFmpegError\<close> is a rejection by the FFmpeg instance.
\<close>

datatype export_error = MissingFileError string | FFmpegError string

datatype toast = ToastSuccess string | ToastError string | ToastInfo string

datatype log_entry = ConsoleError string export_error

datatype download = VideoBlob filedata | ZipBlob "(string \<times> filedata) list"

record app_state =
  ffmpegLoading :: bool
  ffmpegLoaded :: bool
  loading :: bool
  availableClips :: "VideoClip list"
  sequences :: "Sequence list"
  files :: fsys
  toasts :: "toast list"
  console :: "log_entry list"
  downloads :: "(string \<times> download) list"

definition toast_success :: "string \<Rightarrow> app_state \<Rightarrow> app_state" where
  "toast_success msg st = st\<lparr>toasts := toasts st @ [ToastSuccess msg]\<rparr>"

definition toast_error :: "string \<Rightarrow> app_state \<Rightarrow> app_state" where
  "toast_error msg st = st\<lparr>toasts := toasts st @ [ToastError msg]\<rparr>"

definition console_error :: "string \<Rightarrow> export_error \<Rightarrow> app_state \<Rightarrow> app_state" where
  "console_error label e st = st\<lparr>console := console st @ [ConsoleError label e]\<rparr>"

text \<open>\<open>!index\<close> for the optional parameter \<open>index?: number\<close>: true for undefined and for 0.\<close>

definition not_index :: "nat option \<Rightarrow> bool" where
  "not_index index \<longleftrightarrow> index = None \<or> index = Some 0"

definition input_name :: "nat \<Rightarrow> string" where
  "input_name i = ''input'' @ show_nat i @ ''.mp4''"

definition list_line :: "nat \<Rightarrow> string" where
  "list_line i = ''file input'' @ show_nat i @ ''.mp4'' @ [CHR 0x0A]"

definition restitched_name :: "nat \<Rightarrow> string" where
  "restitched_name index = ''restitched '' @ show_nat (index + 1) @ ''.mp4''"

text \<open>
  The staging loop over \<open>sequence.clips\<close>, from position \<open>i\<close>: a clip without a file
  throws, otherwise its data is written to \<open>input<i>.mp4\<close> and a line is appended to the
  content of the list file.
\<close>

fun stage_loop :: "nat \<Rightarrow> VideoClip list \<Rightarrow> string \<Rightarrow> fsys \<Rightarrow> (export_error + string) \<times> fsys" where
  "stage_loop i [] listFileContent fs = (Inr listFileContent, fs)"
| "stage_loop i (clip # rest) listFileContent fs =
     (case clip_file clip of
        None \<Rightarrow> (Inl (MissingFileError (clip_name clip)), fs)
      | Some inputData \<Rightarrow>
          stage_loop (i + 1) rest (listFileContent @ list_line i) (fs(input_name i \<mapsto> inputData)))"

definition deleteFile :: "string \<Rightarrow> fsys \<Rightarrow> export_error + fsys" where
  "deleteFile name fs =
     (case fs name of
        None \<Rightarrow> Inl (FFmpegError (''deleteFile: '' @ name))
      | Some d \<Rightarrow> Inr (fs(name := None)))"

text \<open>The loop that deletes \<open>input<i>.mp4\<close> for the positions \<open>i\<close> given.\<close>

fun delete_loop :: "nat list \<Rightarrow> fsys \<Rightarrow> export_error option \<times> fsys" where
  "delete_loop [] fs = (None, fs)"
| "delete_loop (i # rest) fs =
     (case deleteFile (input_name i) fs of
        Inl e \<Rightarrow> (Some e, fs)
      | Inr fs' \<Rightarrow> delete_loop rest fs')"

definition write_output :: "filedata option \<Rightarrow> fsys \<Rightarrow> fsys" where
  "write_output out fs = (case out of None \<Rightarrow> fs | Some d \<Rightarrow> fs(''output.mp4'' \<mapsto> d))"

text \<open>
  The body of the \<open>try\<close> block of \<open>exportSequence\<close>, after \<open>setLoading(true)\<close> and the
  first toast. With an index it returns the named artifact right after reading the output;
  without one it triggers the download, deletes the staged files, the list and the
  output, and returns nothing.
\<close>

definition export_body :: "(fsys \<Rightarrow> exec_outcome) \<Rightarrow> Sequence \<Rightarrow> nat option \<Rightarrow> app_state
    \<Rightarrow> (export_error + (string \<times> filedata) option) \<times> app_state" where
  "export_body exec sequence index st =
     (case stage_loop 0 (seq_clips sequence) [] (files st) of
        (Inl e, fs1) \<Rightarrow> (Inl e, st\<lparr>files := fs1\<rparr>)
      | (Inr listFileContent, fs1) \<Rightarrow>
          (let fs2 = fs1(''list.txt'' \<mapsto> listFileContent) in
           case exec fs2 of
             ExecThrow msg out \<Rightarrow> (Inl (FFmpegError msg), st\<lparr>files := write_output out fs2\<rparr>)
           | ExecDone out \<Rightarrow>
               (let fs3 = write_output out fs2 in
                case fs3 ''output.mp4'' of
                  None \<Rightarrow> (Inl (FFmpegError ''readFile: output.mp4''), st\<lparr>files := fs3\<rparr>)
                | Some outputData \<Rightarrow>
                    (case index of
                       Some i \<Rightarrow> (Inr (Some (restitched_name i, outputData)), st\<lparr>files := fs3\<rparr>)
                     | None \<Rightarrow>
                         (let st1 = st\<lparr>files := fs3,
                                        downloads := downloads st @
                                          [(''restitched '' @ seq_id sequence @ ''.mp4'',
                                            VideoBlob outputData)]\<rparr>
                          in case delete_loop [0..<length (seq_clips sequence)] fs3 of
                               (Some e, fs4) \<Rightarrow> (Inl e, st1\<lparr>files := fs4\<rparr>)
                             | (None, fs4) \<Rightarrow>
                                 (case deleteFile ''list.txt'' fs4 of
                                    Inl e \<Rightarrow> (Inl e, st1\<lparr>files := fs4\<rparr>)
                                  | Inr fs5 \<Rightarrow>
                                      (case deleteFile ''output.mp4'' fs5 of
                                         Inl e \<Rightarrow> (Inl e, st1\<lparr>files := fs5\<rparr>)
                                       | Inr fs6 \<Rightarrow>
                                           (Inr None,
                                            toast_success ''Export completed!''
                                              (st1\<lparr>files := fs6\<rparr>)))))))))"

text \<open>
  \<open>exportSequence\<close>: the guard, the \<open>try\<close> block, the \<open>catch\<close> block (log, toast when
  \<open>!index\<close>, rethrow) and the \<open>finally\<close> block (\<open>setLoading(false)\<close> when \<open>!index\<close>).
  \<open>Inl\<close> is the error thrown to the caller.
\<close>

definition exportSequence :: "(fsys \<Rightarrow> exec_outcome) \<Rightarrow> Sequence \<Rightarrow> nat option \<Rightarrow> app_state
    \<Rightarrow> (export_error + (string \<times> filedata) option) \<times> app_state" where
  "exportSequence exec sequence index st =
     (if ffmpegLoading st \<or> \<not> ffmpegLoaded st
      then (Inr None, toast_error ''Please wait for video processing to initialize'' st)
      else
        (let st0 = st\<lparr>loading := True\<rparr>;
             st1 = (if not_index index then toast_success ''Starting export...'' st0 else st0)
         in case export_body exec sequence index st1 of
              (Inr result, st2) \<Rightarrow>
                (Inr result, if not_index index then st2\<lparr>loading := False\<rparr> else st2)
            | (Inl e, st2) \<Rightarrow>
                (let st3 = console_error ''Export error:'' e st2;
                     st4 = (if not_index index then toast_error ''Failed to export sequence'' st3
                            else st3)
                 in (Inl e, if not_index index then st4\<lparr>loading := False\<rparr> else st4))))"

text \<open>\<open>zip.file(name, data)\<close>: an entry of that name is replaced, a new one comes last.\<close>

fun zip_file :: "string \<Rightarrow> filedata \<Rightarrow> (string \<times> filedata) list \<Rightarrow> (string \<times> filedata) list" where
  "zip_file name d [] = [(name, d)]"
| "zip_file name d (e # es) = (if fst e = name then (name, d) # es else e # zip_file name d es)"

text \<open>The loop of \<open>downloadAllSequences\<close> over the sequences, from index \<open>i\<close>.\<close>

fun batch_loop :: "(fsys \<Rightarrow> exec_outcome) \<Rightarrow> nat \<Rightarrow> Sequence list \<Rightarrow> (string \<times> filedata) list
    \<Rightarrow> app_state \<Rightarrow> (export_error + (string \<times> filedata) list) \<times> app_state" where
  "batch_loop exec i [] archive st = (Inr archive, st)"
| "batch_loop exec i (s # rest) archive st =
     (case exportSequence exec s (Some i) st of
        (Inl e, st') \<Rightarrow> (Inl e, st')
      | (Inr result, st') \<Rightarrow>
          batch_loop exec (i + 1) rest
            (case result of
               None \<Rightarrow> archive
             | Some r \<Rightarrow> zip_file (restitched_name i) (snd r) archive)
            st')"

text \<open>\<open>setLoading(true); toast.success("Starting batch download...")\<close>\<close>

definition batch_start :: "app_state \<Rightarrow> app_state" where
  "batch_start st = toast_success ''Starting batch download...'' (st\<lparr>loading := True\<rparr>)"

text \<open>
  \<open>downloadAllSequences\<close>: the guard, then the loop inside \<open>try\<close>; after the loop the
  archive is downloaded; \<open>catch\<close> logs the error and shows a toast; \<open>finally\<close> resets
  the loading flag.
\<close>

definition downloadAllSequences :: "(fsys \<Rightarrow> exec_outcome) \<Rightarrow> app_state \<Rightarrow> app_state" where
  "downloadAllSequences exec st =
     (if ffmpegLoading st \<or> \<not> ffmpegLoaded st \<or> length (sequences st) = 0
      then toast_error ''No sequences to download or processing not ready'' st
      else
        (case batch_loop exec 0 (sequences st) [] (batch_start st) of
           (Inr archive, st') \<Rightarrow>
             (toast_success ''All sequences downloaded!''
                (st'\<lparr>downloads := downloads st' @
                                  [(''restitched-sequences.zip'', ZipBlob archive)]\<rparr>))
             \<lparr>loading := False\<rparr>
         | (Inl e, st') \<Rightarrow>
             (toast_error ''Failed to download all sequences''
                (console_error ''Batch download error:'' e st'))
             \<lparr>loading := False\<rparr>))"

text \<open>
  \<open>generateSequences\<close> on the state of the page: an error toast and nothing else in the
  two guarded cases, otherwise \<open>setSequences(newSequences)\<close>, \<open>setLoading(false)\<close> and
  the success toast with the number of sequences.
\<close>

definition generateSequences :: "(real \<Rightarrow> real) \<Rightarrow> (nat \<Rightarrow> real) \<Rightarrow> app_state \<Rightarrow> app_state" where
  "generateSequences fl rnd st =
     (case generate fl rnd (availableClips st) of
        Inl EmptyInput \<Rightarrow> toast_error ''Please upload some video clips first'' st
      | Inl MissingRole \<Rightarrow> toast_error ''You need at least one hook and one CTA clip'' st
      | Inr newSequences \<Rightarrow>
          toast_success (''Generated '' @ show_nat (length newSequences) @ '' unique sequences!'')
            (st\<lparr>sequences := newSequences, loading := False\<rparr>))"

section \<open>The clip registry with object identity\<close>

text \<open>
  A generated sequence holds references to the clip objects that were in
  \<open>availableClips\<close> when it was built (\<open>sequenceClips = [selectedHook, ..., selectedCTA]\<close>).
  To say what the registry operations do to those objects, this section keeps the objects
  in a store: \<open>availableClips\<close> and the \<open>clips\<close> of a sequence are lists of references,
  and the object spread \<open>{...clip, type: newType}\<close> allocates a new object at the next
  free reference.
\<close>

type_synonym ref = nat

record RefSequence =
  rseq_id :: string
  rseq_clips :: "ref list"
  rseq_duration :: real

record registry =
  objects :: "ref \<rightharpoonup> VideoClip"
  next_ref :: ref
  availableClipRefs :: "ref list"
  sequenceRefs :: "RefSequence list"

text \<open>
  \<open>prev.map(clip => clip.id === clipId ? { ...clip, type: newType } : clip)\<close>:
  the new array, the store and the next free reference afterwards.
\<close>

fun update_refs :: "string \<Rightarrow> clip_type \<Rightarrow> ref list \<Rightarrow> (ref \<rightharpoonup> VideoClip) \<Rightarrow> ref
    \<Rightarrow> ref list \<times> (ref \<rightharpoonup> VideoClip) \<times> ref" where
  "update_refs clipId newType [] objs nxt = ([], objs, nxt)"
| "update_refs clipId newType (r # rs) objs nxt =
     (case objs r of
        None \<Rightarrow>
          (case update_refs clipId newType rs objs nxt of
             (rs', objs', nxt') \<Rightarrow> (r # rs', objs', nxt'))
      | Some clip \<Rightarrow>
          (if clip_id clip = clipId
           then (case update_refs clipId newType rs
                        (objs(nxt \<mapsto> clip\<lparr>clip_type := newType\<rparr>)) (nxt + 1) of
                   (rs', objs', nxt') \<Rightarrow> (nxt # rs', objs', nxt'))
           else (case update_refs clipId newType rs objs nxt of
                   (rs', objs', nxt') \<Rightarrow> (r # rs', objs', nxt'))))"

definition updateClipType :: "string \<Rightarrow> clip_type \<Rightarrow> registry \<Rightarrow> registry" where
  "updateClipType clipId newType reg =
     (case update_refs clipId newType (availableClipRefs reg) (objects reg) (next_ref reg) of
        (rs, objs, nxt) \<Rightarrow> reg\<lparr>objects := objs, next_ref := nxt, availableClipRefs := rs\<rparr>)"

definition removeClip :: "string \<Rightarrow> registry \<Rightarrow> registry" where
  "removeClip clipId reg =
     reg\<lparr>availableClipRefs :=
           filter (\<lambda>r. case objects reg r of None \<Rightarrow> True | Some clip \<Rightarrow> clip_id clip \<noteq> clipId)
                  (availableClipRefs reg)\<rparr>"

definition removeAllClips :: "registry \<Rightarrow> registry" where
  "removeAllClips reg = reg\<lparr>availableClipRefs := []\<rparr>"

text \<open>A sequence as the page sees it: its references followed into the store.\<close>

definition sequence_view :: "registry \<Rightarrow> RefSequence \<Rightarrow> Sequence" where
  "sequence_view reg s =
     \<lparr>seq_id = rseq_id s,
      seq_clips = map (\<lambda>r. the (objects reg r)) (rseq_clips s),
      seq_duration = rseq_duration s\<rparr>"

text \<open>
  The store is well formed when every object lies below the next free reference and
  every reference held by a sequence points to an object.
\<close>

definition allocated :: "registry \<Rightarrow> bool" where
  "allocated reg \<longleftrightarrow>
     (\<forall>r \<in> dom (objects reg). r < next_ref reg) \<and>
     (\<forall>s \<in> set (sequenceRefs reg). \<forall>r \<in> set (rseq_clips s). r \<in> dom (objects reg))"

section \<open>Clip ids\<close>

text \<open>
  \<open>handleFileUpload\<close> names a new clip \<open>`clip-${Date.now()}-${Math.random()}`\<close>.
  \<open>Date.now()\<close> is a natural number of milliseconds. The second argument stands for the
  text that the template string makes of the random number; JavaScript writes a finite
  number with digits, a point, an exponent mark and signs only.
\<close>

definition number_text :: "string \<Rightarrow> bool" where
  "number_text r \<longleftrightarrow> set r \<subseteq> set ''0123456789.e+-''"

definition new_clip_id :: "nat \<Rightarrow> string \<Rightarrow> string" where
  "new_clip_id now random = ''clip-'' @ show_nat now @ ''-'' @ random"

section \<open>Example data\<close>

definition hookA :: VideoClip where
  "hookA = \<lparr>clip_id = ''clip-1-0.1'', clip_name = ''hook a'', clip_duration = 2,
            clip_type = Hook, clip_file = Some ''HA''\<rparr>"

definition pointA :: VideoClip where
  "pointA = \<lparr>clip_id = ''clip-2-0.2'', clip_name = ''sp a'', clip_duration = 3,
             clip_type = SellingPoint, clip_file = Some ''PA''\<rparr>"

definition pointB :: VideoClip where
  "pointB = \<lparr>clip_id = ''clip-3-0.3'', clip_name = ''sp b'', clip_duration = 4,
             clip_type = SellingPoint, clip_file = Some ''PB''\<rparr>"

definition ctaA :: VideoClip where
  "ctaA = \<lparr>clip_id = ''clip-4-0.4'', clip_name = ''cta a'', clip_duration = 3/2,
           clip_type = Cta, clip_file = Some ''CA''\<rparr>"

definition ctaB :: VideoClip where
  "ctaB = \<lparr>clip_id = ''clip-5-0.5'', clip_name = ''cta b'', clip_duration = 1,
           clip_type = Cta, clip_file = Some ''CB''\<rparr>"

text \<open>
  A rounding for the examples: it leaves every number as it is, as the rounding to
  doubles does with the small integers that occur in them.
\<close>

definition exact :: "real \<Rightarrow> real" where
  "exact x = x"

definition rndA :: "nat \<Rightarrow> real" where
  "rndA k = (if k < 3 then 0 else 1/2)"

definition pointLost :: VideoClip where
  "pointLost = \<lparr>clip_id = ''clip-6-0.6'', clip_name = ''sp lost'', clip_duration = 3,
                clip_type = SellingPoint, clip_file = None\<rparr>"

definition seqA :: Sequence where
  "seqA = \<lparr>seq_id = ''sequence-1'', seq_clips = [hookA, pointA, ctaA], seq_duration = 13/2\<rparr>"

definition seqB :: Sequence where
  "seqB = \<lparr>seq_id = ''sequence-2'', seq_clips = [hookA, pointB, ctaB], seq_duration = 7\<rparr>"

definition seqC :: Sequence where
  "seqC = \<lparr>seq_id = ''sequence-1'', seq_clips = [hookA, pointB, ctaA], seq_duration = 15/2\<rparr>"

definition seqLost :: Sequence where
  "seqLost = \<lparr>seq_id = ''sequence-3'', seq_clips = [hookA, pointLost, ctaA], seq_duration = 13/2\<rparr>"

text \<open>
  An example of the external service, for sequences of up to three clips: it writes the
  staged inputs one after the other to the output. A second one always rejects.
\<close>

definition execA :: "fsys \<Rightarrow> exec_outcome" where
  "execA fs =
     ExecDone (Some (concat (map (\<lambda>i. case fs (input_name i) of None \<Rightarrow> [] | Some d \<Rightarrow> d)
                                 [0..<3])))"

definition execFail :: "fsys \<Rightarrow> exec_outcome" where
  "execFail fs = ExecThrow ''Conversion failed!'' None"

definition regA :: registry where
  "regA = \<lparr>objects = [0 \<mapsto> hookA, 1 \<mapsto> pointA, 2 \<mapsto> ctaA], next_ref = 3,
           availableClipRefs = [0, 1, 2],
           sequenceRefs = [\<lparr>rseq_id = ''sequence-1'', rseq_clips = [0, 1, 2],
                            rseq_duration = 13/2\<rparr>]\<rparr>"

definition page0 :: app_state where
  "page0 = \<lparr>ffmpegLoading = False, ffmpegLoaded = True, loading = False,
            availableClips = [], sequences = [], files = Map.empty,
            toasts = [], console = [], downloads = []\<rparr>"

section \<open>Properties of the generator\<close>

subsection \<open>Input errors\<close>

text \<open>
  C8. \<open>generate\<close> fails with \<open>EmptyInput\<close> on an empty clip list, and with \<open>MissingRole\<close> on
  a non-empty list that has no hook or no call to action. In both cases
  \<open>generateSequences\<close> leaves the sequences of the page as they were: none is produced.
\<close>

theorem generate_input_errors:
  "generate fl rnd [] = Inl EmptyInput \<and>
   (clips \<noteq> [] \<and> ((\<forall>c \<in> set clips. clip_type c \<noteq> Hook) \<or> (\<forall>c \<in> set clips. clip_type c \<noteq> Cta))
      \<longrightarrow> generate fl rnd clips = Inl MissingRole) \<and>
   (availableClips st = [] \<or> (\<forall>c \<in> set (availableClips st). clip_type c \<noteq> Hook)
       \<or> (\<forall>c \<in> set (availableClips st). clip_type c \<noteq> Cta)
      \<longrightarrow> (\<exists>e. generate fl rnd (availableClips st) = Inl e) \<and>
          sequences (generateSequences fl rnd st) = sequences st)"
proof -
  have e: "generate fl rnd [] = Inl EmptyInput"
    by (simp add: generate_def)
  have m: "generate fl rnd clips = Inl MissingRole"
    if a: "clips \<noteq> [] \<and>
      ((\<forall>c \<in> set clips. clip_type c \<noteq> Hook) \<or> (\<forall>c \<in> set clips. clip_type c \<noteq> Cta))"
  proof -
    from a have "filter (\<lambda>clip. clip_type clip = Hook) clips = [] \<or>
                 filter (\<lambda>clip. clip_type clip = Cta) clips = []"
      by (auto simp: filter_empty_conv)
    then show ?thesis using a by (auto simp: generate_def Let_def)
  qed
  have s: "(\<exists>e. generate fl rnd (availableClips st) = Inl e) \<and>
           sequences (generateSequences fl rnd st) = sequences st"
    if a: "availableClips st = [] \<or> (\<forall>c \<in> set (availableClips st). clip_type c \<noteq> Hook)
       \<or> (\<forall>c \<in> set (availableClips st). clip_type c \<noteq> Cta)"
  proof -
    from a have "availableClips st = [] \<or>
                 filter (\<lambda>clip. clip_type clip = Hook) (availableClips st) = [] \<or>
                 filter (\<lambda>clip. clip_type clip = Cta) (availableClips st) = []"
      by (auto simp: filter_empty_conv)
    then have "generate fl rnd (availableClips st) = Inl EmptyInput \<or>
               generate fl rnd (availableClips st) = Inl MissingRole"
      by (auto simp: generate_def Let_def)
    then show ?thesis
      by (auto simp: generateSequences_def toast_error_def)
  qed
  show ?thesis using e m s by blast
qed

theorem generate_input_errors_witness:
  "[hookA, pointA] \<noteq> [] \<and> clip_type hookA \<noteq> Cta \<and> clip_type pointA \<noteq> Cta \<and>
   generate exact (\<lambda>k. 0) [hookA, pointA] = Inl MissingRole \<and>
   sequences (generateSequences exact (\<lambda>k. 0)
      (page0\<lparr>availableClips := [hookA, pointA],
             sequences := [\<lparr>seq_id = ''sequence-1'', seq_clips = [hookA, ctaA],
                            seq_duration = 7/2\<rparr>]\<rparr>))
     = [\<lparr>seq_id = ''sequence-1'', seq_clips = [hookA, ctaA], seq_duration = 7/2\<rparr>]"
  using generate_input_errors [of exact "\<lambda>k. 0" "[hookA, pointA]"
          "page0\<lparr>availableClips := [hookA, pointA],
                 sequences := [\<lparr>seq_id = ''sequence-1'', seq_clips = [hookA, ctaA],
                                seq_duration = 7/2\<rparr>]\<rparr>"]
  by (simp add: hookA_def pointA_def page0_def)

subsection \<open>An empty pool of selling points\<close>

text \<open>
  C2. With one hook, no selling point and one call to action, the number of selling
  points is 0, the sum over the empty array of binomial coefficients is 0, so
  \<open>maxCombinations\<close> and \<open>targetSequences\<close> are 0 and the loop is never entered:
  \<open>generateSequences\<close> stores no sequence, whatever the random source returns.
\<close>

theorem generate_hook_cta_only:
  "generate fl rnd [hookA, ctaA] = Inr [] \<and>
   targetSequences_of fl [hookA] [] [ctaA] = 0 \<and>
   sequences (generateSequences fl rnd (page0\<lparr>availableClips := [hookA, ctaA]\<rparr>)) = []"
proof -
  have t: "targetSequences_of fl [hookA] [] [ctaA] = 0"
    by (simp add: targetSequences_of_def maxCombinations_def maxSellingPoints_of_def)
  have g: "generate fl rnd [hookA, ctaA] = Inr []"
    by (simp add: generate_def hookA_def ctaA_def gen_loop.simps targetSequences_of_def
          maxCombinations_def maxSellingPoints_of_def)
  show ?thesis using t g by (simp add: generateSequences_def toast_success_def page0_def)
qed

subsection \<open>Random indices and the binomial coefficient\<close>


lemma randInt_less: 
  assumes "0 \<le> r" "r < 1" "0 < n" shows "randInt r n < n"
proof -
  have "r * real n < real n" using assms by simp
  then have "\<lfloor>r * real n\<rfloor> < int n" by (simp add: floor_less_iff)
  moreover have "0 \<le> \<lfloor>r * real n\<rfloor>" using assms by simp
  ultimately show ?thesis unfolding randInt_def by (simp add: nat_less_iff)
qed

lemma randInt_zero [simp]: "randInt r 0 = 0"
  by (simp add: randInt_def)

lemma choose_step:
  assumes "1 \<le> i" "i \<le> n"
  shows "real (n choose i) = real (n choose (i - 1)) * ((real n + 1 - real i) / real i)"
proof -
  obtain a where a: "i = Suc a" using assms by (cases i) auto
  obtain b where b: "n = a + b + 1" using assms a by (metis Suc_eq_plus1 add.commute add_Suc_right le_Suc_ex)
  have "Suc a * (Suc (a + b) choose Suc a) = Suc b * (Suc (a + b) choose a)"
    by (rule Suc_times_binomial_add)
  then have "real (Suc a) * real (n choose i) = real (Suc b) * real (n choose (i - 1))"
    using a b by (metis Suc_eq_plus1 diff_Suc_1 of_nat_mult)
  moreover have "real n + 1 - real i = real (Suc b)" using a b by simp
  ultimately show ?thesis using a by (simp add: field_simps)
qed

text \<open>With a rounding that changes nothing the loop computes the binomial coefficient.\<close>

lemma binomial_loop_choose:
  "fl = (\<lambda>x. x) \<Longrightarrow> 1 \<le> i \<Longrightarrow> i \<le> k + 1 \<Longrightarrow> k \<le> n \<Longrightarrow>
   result = real (n choose (i - 1)) \<Longrightarrow>
   binomial_loop fl n k i result = real (n choose k)"
proof (induction fl n k i result rule: binomial_loop.induct)
  case (1 fl n k i result)
  show ?case
  proof (cases "i \<le> k")
    case True
    have "real (n choose i) = real (n choose (i - 1)) * ((real n + 1 - real i) / real i)"
      using choose_step 1 True by simp
    then show ?thesis using 1 True
      by (subst binomial_loop.simps) simp
  next
    case False
    then have "i - 1 = k" using 1 by simp
    then show ?thesis using 1 False by (subst binomial_loop.simps) simp
  qed
qed

lemma binomialCoefficient_choose: "binomialCoefficient (\<lambda>x. x) n k = n choose k"
  unfolding binomialCoefficient_def
  by (simp add: binomial_loop_choose)

subsection \<open>The shuffle and one draw\<close>

lemma valid_rnd_randInt: "valid_rnd rnd \<Longrightarrow> 0 < n \<Longrightarrow> randInt (rnd k) n < n"
  by (simp add: valid_rnd_def randInt_less)

lemma shuffle_loop_mset:
  "valid_rnd rnd \<Longrightarrow> i \<le> length a - 1 \<Longrightarrow> mset (fst (shuffle_loop rnd c i a)) = mset a"
proof (induction i arbitrary: c a)
  case 0
  then show ?case by simp
next
  case (Suc i)
  let ?j = "randInt (rnd c) (Suc i + 1)"
  let ?a = "a[Suc i := a ! ?j, ?j := a ! Suc i]"
  have si: "Suc i < length a" using Suc.prems by simp
  have "?j < Suc i + 1" using Suc.prems(1) by (intro valid_rnd_randInt) simp_all
  then have j: "?j < length a" using si by simp
  have sw: "mset ?a = mset a" using j si by (rule mset_swap)
  have "i \<le> length ?a - 1" using si by simp
  then have "mset (fst (shuffle_loop rnd (c + 1) i ?a)) = mset ?a"
    using Suc.IH Suc.prems(1) by blast
  then show ?case using sw by (simp add: Let_def)
qed

lemma shuffle_loop_indices:
  assumes "valid_rnd rnd"
  shows "distinct (fst (shuffle_loop rnd c (n - 1) [0..<n]))"
    and "set (fst (shuffle_loop rnd c (n - 1) [0..<n])) = {0..<n}"
    and "length (fst (shuffle_loop rnd c (n - 1) [0..<n])) = n"
proof -
  have m: "mset (fst (shuffle_loop rnd c (n - 1) [0..<n])) = mset [0..<n]"
    using assms by (intro shuffle_loop_mset) simp_all
  show "distinct (fst (shuffle_loop rnd c (n - 1) [0..<n]))"
    using m by (metis distinct_upt mset_eq_imp_distinct_iff)
  show "set (fst (shuffle_loop rnd c (n - 1) [0..<n])) = {0..<n}"
    using m by (metis mset_eq_setD set_upt)
  show "length (fst (shuffle_loop rnd c (n - 1) [0..<n])) = n"
    using m by (metis length_upt mset_eq_length minus_nat.diff_0)
qed

lemma draw_shape:
  assumes rnd: "valid_rnd rnd" and h: "hooks \<noteq> []" and c: "ctas \<noteq> []"
    and d: "draw rnd k hooks sps ctas (min 3 (length sps)) = ((sh, ssp, sc), k')"
  shows "sh \<in> set hooks" and "sc \<in> set ctas" and "picks sps ssp"
proof -
  let ?sh = "fst (shuffle_loop rnd (k + 3) (length sps - 1) [0..<length sps])"
  let ?num = "min (randInt (rnd (k + 2)) (min 3 (length sps)) + 1) (length sps)"
  from d have sh: "sh = hooks ! randInt (rnd k) (length hooks)"
    and sc: "sc = ctas ! randInt (rnd (k + 1)) (length ctas)"
    and ssp: "ssp = map (\<lambda>index. sps ! index) (take ?num ?sh)"
    by (auto simp: draw_def Let_def split: prod.splits)
  show "sh \<in> set hooks" using sh h rnd by (simp add: valid_rnd_randInt)
  show "sc \<in> set ctas" using sc c rnd by (simp add: valid_rnd_randInt)
  note ix = shuffle_loop_indices[OF rnd, of "k + 3" "length sps"]
  have 1: "distinct (take ?num ?sh)" using ix(1) by simp
  have 2: "\<forall>i \<in> set (take ?num ?sh). i < length sps"
    using ix(2) by (metis atLeastLessThan_iff in_set_takeD)
  have 3: "length (take ?num ?sh) = ?num" using ix(3) by simp
  have 4: "sps \<noteq> [] \<longrightarrow> 1 \<le> ?num" by (cases sps) simp_all
  have 5: "?num \<le> min 3 (length sps)"
  proof (cases "sps = []")
    case True then show ?thesis by simp
  next
    case False
    then have "randInt (rnd (k + 2)) (min 3 (length sps)) < min 3 (length sps)"
      using rnd by (intro valid_rnd_randInt) simp_all
    then show ?thesis by simp
  qed
  have n4: "sps \<noteq> [] \<longrightarrow> 1 \<le> length (take ?num ?sh)" using 3 4 by metis
  have n5: "length (take ?num ?sh) \<le> min 3 (length sps)" using 3 5 by metis
  show "picks sps ssp" unfolding picks_def
    using ssp 1 2 n4 n5 by blast
qed

lemma seq_key_new [simp]:
  "seq_key \<lparr>seq_id = i, seq_clips = [h] @ sel @ [ct], seq_duration = d\<rparr> = combinationKey h sel ct"
  by (simp add: seq_key_def butlast_append)

lemma gen_loop_stop:
  "\<not> (length seqs < target \<and> attempts < maxAttempts) \<Longrightarrow>
   gen_loop rnd hooks sps ctas m target seqs used attempts c = (seqs, attempts)"
  by (subst gen_loop.simps) (simp only: if_False)

lemma gen_loop_dup:
  "length seqs < target \<and> attempts < maxAttempts \<Longrightarrow>
   draw rnd c hooks sps ctas m = ((sh, ssp, sc), c') \<Longrightarrow>
   \<not> combinationKey sh ssp sc \<notin> used \<Longrightarrow>
   gen_loop rnd hooks sps ctas m target seqs used attempts c
     = gen_loop rnd hooks sps ctas m target seqs used (attempts + 1) c'"
  by (subst gen_loop.simps) simp

lemma gen_loop_fresh:
  "length seqs < target \<and> attempts < maxAttempts \<Longrightarrow>
   draw rnd c hooks sps ctas m = ((sh, ssp, sc), c') \<Longrightarrow>
   combinationKey sh ssp sc \<notin> used \<Longrightarrow>
   gen_loop rnd hooks sps ctas m target seqs used attempts c
     = gen_loop rnd hooks sps ctas m target
         (seqs @ [\<lparr>seq_id = ''sequence-'' @ show_nat (length seqs + 1),
                   seq_clips = [sh] @ ssp @ [sc],
                   seq_duration = totalDuration ([sh] @ ssp @ [sc])\<rparr>])
         (insert (combinationKey sh ssp sc) used) (attempts + 1) c'"
  by (subst gen_loop.simps) (simp add: Let_def)

lemma gen_loop_ok:
  "valid_rnd rnd \<Longrightarrow> hooks \<noteq> [] \<Longrightarrow> ctas \<noteq> [] \<Longrightarrow> m = min 3 (length sps) \<Longrightarrow>
   seqs_ok hooks sps ctas seqs \<Longrightarrow> used = seq_key ` set seqs \<Longrightarrow>
   seqs_ok hooks sps ctas (fst (gen_loop rnd hooks sps ctas m target seqs used attempts c))"
proof (induction rnd hooks sps ctas m target seqs used attempts c rule: gen_loop.induct)
  case (1 rnd hooks sps ctas m target seqs used attempts c)
  show ?case
  proof (cases "length seqs < target \<and> attempts < maxAttempts")
    case False
    then show ?thesis using "1.prems"(5) by (simp add: gen_loop_stop)
  next
    case True
    obtain sh ssp sc c' where d: "draw rnd c hooks sps ctas m = ((sh, ssp, sc), c')"
      by (metis prod_cases3 surj_pair)
    note sh = draw_shape[OF "1.prems"(1,2,3) d[unfolded "1.prems"(4)]]
    show ?thesis
    proof (cases "combinationKey sh ssp sc \<notin> used")
      case False
      have "seqs_ok hooks sps ctas (fst (gen_loop rnd hooks sps ctas m target seqs used (attempts + 1) c'))"
        using "1.IH"(2)[OF True d[symmetric] refl refl False "1.prems"] .
      then show ?thesis using gen_loop_dup[OF True d False] by simp
    next
      case fresh: True
      let ?s = "\<lparr>seq_id = ''sequence-'' @ show_nat (length seqs + 1),
                 seq_clips = [sh] @ ssp @ [sc], seq_duration = totalDuration ([sh] @ ssp @ [sc])\<rparr>"
      have k: "seq_key ?s = combinationKey sh ssp sc" by (rule seq_key_new)
      have "shaped hooks sps ctas ?s" unfolding shaped_def using sh by auto
      then have ok: "seqs_ok hooks sps ctas (seqs @ [?s])"
        using "1.prems"(5,6) fresh k unfolding seqs_ok_def by auto
      have u: "insert (combinationKey sh ssp sc) used = seq_key ` set (seqs @ [?s])"
        using "1.prems"(6) k by auto
      have "seqs_ok hooks sps ctas (fst (gen_loop rnd hooks sps ctas m target (seqs @ [?s])
                     (insert (combinationKey sh ssp sc) used) (attempts + 1) c'))"
        using "1.IH"(1)[OF True d[symmetric] refl refl fresh refl "1.prems"(1,2,3,4) ok u] .
      then show ?thesis using gen_loop_fresh[OF True d fresh] by simp
    qed
  qed
qed

subsection \<open>Signatures and keys\<close>

lemma totalDuration_sum: "totalDuration cl = sum_list (map clip_duration cl)"
proof -
  have "foldl (\<lambda>acc clip. acc + clip_duration clip) a cl = a + sum_list (map clip_duration cl)" for a
    by (induction cl arbitrary: a) simp_all
  then show ?thesis by (simp add: totalDuration_def)
qed

lemma picks_ids_distinct:
  assumes "picks sps sel" "distinct (map clip_id sps)"
  shows "distinct (map clip_id sel)"
proof -
  from assms(1) obtain idxs where sel: "sel = map (\<lambda>index. sps ! index) idxs"
    and d: "distinct idxs" and b: "\<forall>i \<in> set idxs. i < length sps"
    unfolding picks_def by blast
  have "inj_on (\<lambda>i. clip_id (sps ! i)) (set idxs)"
  proof (rule inj_onI)
    fix x y assume x: "x \<in> set idxs" and y: "y \<in> set idxs"
      and e: "clip_id (sps ! x) = clip_id (sps ! y)"
    have lx: "x < length (map clip_id sps)" and ly: "y < length (map clip_id sps)"
      using x y b by simp_all
    have "map clip_id sps ! x = map clip_id sps ! y" using e x y b by simp
    then show "x = y" using nth_eq_iff_index_eq[OF assms(2) lx ly] by blast
  qed
  then show ?thesis using d by (simp add: sel distinct_map comp_def)
qed

lemma sort_eq_of_set_eq:
  fixes xs ys :: "string list"
  assumes "distinct xs" "distinct ys" "set xs = set ys"
  shows "sort xs = sort ys"
  using assms by (intro sorted_distinct_set_unique) simp_all

lemma shaped_signature_key:
  assumes s1: "shaped hooks sps ctas s1" and s2: "shaped hooks sps ctas s2"
    and d: "distinct (map clip_id sps)" and e: "signature s1 = signature s2"
  shows "seq_key s1 = seq_key s2"
proof -
  from s1 obtain h sel ct where c1: "seq_clips s1 = [h] @ sel @ [ct]" and p1: "picks sps sel"
    unfolding shaped_def by blast
  from s2 obtain h' sel' ct' where c2: "seq_clips s2 = [h'] @ sel' @ [ct']" and p2: "picks sps sel'"
    unfolding shaped_def by blast
  have g1: "signature s1 = (clip_id h, set (map clip_id sel), clip_id ct)"
    by (simp add: signature_def c1 butlast_append)
  have g2: "signature s2 = (clip_id h', set (map clip_id sel'), clip_id ct')"
    by (simp add: signature_def c2 butlast_append)
  have k1: "seq_key s1 = combinationKey h sel ct"
    by (simp add: seq_key_def c1 butlast_append)
  have k2: "seq_key s2 = combinationKey h' sel' ct'"
    by (simp add: seq_key_def c2 butlast_append)
  from e g1 g2 have eh: "clip_id h = clip_id h'" and es: "set (map clip_id sel) = set (map clip_id sel')"
    and ec: "clip_id ct = clip_id ct'" by simp_all
  have "sort (map clip_id sel) = sort (map clip_id sel')"
    using picks_ids_distinct[OF p1 d] picks_ids_distinct[OF p2 d] es by (rule sort_eq_of_set_eq)
  then show ?thesis using eh ec by (simp add: k1 k2 combinationKey_def)
qed

lemma generate_ok:
  assumes "valid_rnd rnd" "generate fl rnd clips = Inr seqs"
  shows "seqs_ok (filter (\<lambda>clip. clip_type clip = Hook) clips)
                 (filter (\<lambda>clip. clip_type clip = SellingPoint) clips)
                 (filter (\<lambda>clip. clip_type clip = Cta) clips) seqs"
proof -
  let ?h = "filter (\<lambda>clip. clip_type clip = Hook) clips"
  let ?s = "filter (\<lambda>clip. clip_type clip = SellingPoint) clips"
  let ?c = "filter (\<lambda>clip. clip_type clip = Cta) clips"
  from assms(2) have h: "?h \<noteq> []" and c: "?c \<noteq> []"
    and r: "seqs = fst (gen_loop rnd ?h ?s ?c (maxSellingPoints_of ?s) (targetSequences_of fl ?h ?s ?c) [] {} 0 0)"
    by (auto simp: generate_def Let_def split: if_splits)
  have "seqs_ok ?h ?s ?c []" by (simp add: seqs_ok_def)
  then show ?thesis unfolding r
    using assms(1) h c by (intro gen_loop_ok) (simp_all add: maxSellingPoints_of_def)
qed

text \<open>
  C3. For a clip list with pairwise different ids (the data model's unique ids) and any
  values of \<open>Math.random()\<close> in \<open>[0, 1)\<close>, two sequences at different positions of the
  list that \<open>generate\<close> returns have different combination signatures.
\<close>

theorem generate_signatures_distinct:
  assumes "valid_rnd rnd" and "distinct (map clip_id clips)"
    and "generate fl rnd clips = Inr seqs" and "i < j" and "j < length seqs"
  shows "signature (seqs ! i) \<noteq> signature (seqs ! j)"
proof
  let ?h = "filter (\<lambda>clip. clip_type clip = Hook) clips"
  let ?s = "filter (\<lambda>clip. clip_type clip = SellingPoint) clips"
  let ?c = "filter (\<lambda>clip. clip_type clip = Cta) clips"
  assume e: "signature (seqs ! i) = signature (seqs ! j)"
  have ok: "seqs_ok ?h ?s ?c seqs" using assms(1,3) by (rule generate_ok)
  have d: "distinct (map clip_id ?s)" using assms(2) by (rule distinct_map_filter)
  have "shaped ?h ?s ?c (seqs ! i)" "shaped ?h ?s ?c (seqs ! j)"
    using ok assms(4,5) by (simp_all add: seqs_ok_def)
  then have "seq_key (seqs ! i) = seq_key (seqs ! j)" using d e by (rule shaped_signature_key)
  then have "map seq_key seqs ! i = map seq_key seqs ! j" using assms(4,5) by simp
  moreover have "distinct (map seq_key seqs)" using ok by (simp add: seqs_ok_def)
  moreover have "i < length (map seq_key seqs)" "j < length (map seq_key seqs)"
    using assms(4,5) by simp_all
  ultimately have "i = j" using nth_eq_iff_index_eq by blast
  then show False using assms(4) by simp
qed

theorem generate_signatures_distinct_witness:
  "valid_rnd rndA \<and> distinct (map clip_id [hookA, pointA, ctaA, ctaB]) \<and>
   generate exact rndA [hookA, pointA, ctaA, ctaB] =
     Inr [\<lparr>seq_id = ''sequence-1'', seq_clips = [hookA, pointA, ctaA], seq_duration = 13/2\<rparr>,
          \<lparr>seq_id = ''sequence-2'', seq_clips = [hookA, pointA, ctaB], seq_duration = 6\<rparr>] \<and>
   signature \<lparr>seq_id = ''sequence-1'', seq_clips = [hookA, pointA, ctaA], seq_duration = 13/2\<rparr>
     \<noteq> signature \<lparr>seq_id = ''sequence-2'', seq_clips = [hookA, pointA, ctaB], seq_duration = 6\<rparr>"
proof -
  have r: "valid_rnd rndA" by (simp add: valid_rnd_def rndA_def)
  have d: "distinct (map clip_id [hookA, pointA, ctaA, ctaB])"
    by (simp add: hookA_def pointA_def ctaA_def ctaB_def)
  have g: "generate exact rndA [hookA, pointA, ctaA, ctaB] =
     Inr [\<lparr>seq_id = ''sequence-1'', seq_clips = [hookA, pointA, ctaA], seq_duration = 13/2\<rparr>,
          \<lparr>seq_id = ''sequence-2'', seq_clips = [hookA, pointA, ctaB], seq_duration = 6\<rparr>]"
    by code_simp
  have i: "(0::nat) < 1" by simp
  have j: "1 < length [\<lparr>seq_id = ''sequence-1'', seq_clips = [hookA, pointA, ctaA], seq_duration = 13/2\<rparr>,
          \<lparr>seq_id = ''sequence-2'', seq_clips = [hookA, pointA, ctaB], seq_duration = 6\<rparr>]" by simp
  show ?thesis using r d g generate_signatures_distinct[OF r d g i j] by simp
qed

subsection \<open>The shape of a generated sequence\<close>

lemma filter_point_type:
  "i < length (filter (\<lambda>clip. clip_type clip = SellingPoint) clips) \<Longrightarrow>
   clip_type (filter (\<lambda>clip. clip_type clip = SellingPoint) clips ! i) = SellingPoint"
  using nth_mem[of i "filter (\<lambda>clip. clip_type clip = SellingPoint) clips"] by simp

text \<open>
  C7. When the pool of selling points is not empty and \<open>Math.random()\<close> returns values in
  \<open>[0, 1)\<close>, every sequence that \<open>generate\<close> returns is one hook of the input, then the
  pool's clips at between 1 and \<open>min 3 |points|\<close> pairwise different positions (each a
  selling point), then one call to action of the input; its duration is the sum of the
  durations of its clips.
\<close>

theorem generate_sequence_shape:
  assumes "valid_rnd rnd" and "generate fl rnd clips = Inr seqs" and "s \<in> set seqs"
    and "points = filter (\<lambda>clip. clip_type clip = SellingPoint) clips" and "points \<noteq> []"
  shows "\<exists>h idxs ct.
     seq_clips s = [h] @ map (\<lambda>i. points ! i) idxs @ [ct] \<and>
     h \<in> set clips \<and> clip_type h = Hook \<and>
     distinct idxs \<and> list_all (\<lambda>i. i < length points \<and> clip_type (points ! i) = SellingPoint) idxs \<and>
     1 \<le> length idxs \<and> length idxs \<le> min 3 (length points) \<and>
     ct \<in> set clips \<and> clip_type ct = Cta \<and>
     seq_duration s = sum_list (map clip_duration (seq_clips s))"
proof -
  let ?h = "filter (\<lambda>clip. clip_type clip = Hook) clips"
  let ?c = "filter (\<lambda>clip. clip_type clip = Cta) clips"
  have "seqs_ok ?h points ?c seqs" unfolding assms(4) using assms(1,2) by (rule generate_ok)
  then have "shaped ?h points ?c s" using assms(3) by (simp add: seqs_ok_def)
  then obtain h sel ct where c: "seq_clips s = [h] @ sel @ [ct]" and h: "h \<in> set ?h"
    and p: "picks points sel" and ct: "ct \<in> set ?c"
    and du: "seq_duration s = totalDuration (seq_clips s)"
    unfolding shaped_def by blast
  from p assms(5) obtain idxs where sel: "sel = map (\<lambda>index. points ! index) idxs"
    and d: "distinct idxs" and b: "\<forall>i \<in> set idxs. i < length points"
    and l1: "1 \<le> length idxs" and l2: "length idxs \<le> min 3 (length points)"
    unfolding picks_def by blast
  have "list_all (\<lambda>i. i < length points \<and> clip_type (points ! i) = SellingPoint) idxs"
    using b filter_point_type[of _ clips] unfolding assms(4) list_all_iff by blast
  moreover have "seq_duration s = sum_list (map clip_duration (seq_clips s))"
    using du by (simp add: totalDuration_sum)
  moreover have "seq_clips s = [h] @ map (\<lambda>i. points ! i) idxs @ [ct]" using c sel by simp
  moreover have "h \<in> set clips" "clip_type h = Hook" "ct \<in> set clips" "clip_type ct = Cta"
    using h ct by simp_all
  ultimately show ?thesis using d l1 l2 by blast
qed

theorem generate_sequence_shape_witness:
  "valid_rnd rndA \<and> 
   generate exact rndA [hookA, pointA, ctaA, ctaB] =
     Inr [\<lparr>seq_id = ''sequence-1'', seq_clips = [hookA, pointA, ctaA], seq_duration = 13/2\<rparr>,
          \<lparr>seq_id = ''sequence-2'', seq_clips = [hookA, pointA, ctaB], seq_duration = 6\<rparr>] \<and>
   [pointA] = filter (\<lambda>clip. clip_type clip = SellingPoint) [hookA, pointA, ctaA, ctaB] \<and>
   (\<exists>h idxs ct.
     [hookA, pointA, ctaB] = [h] @ map (\<lambda>i. [pointA] ! i) idxs @ [ct] \<and>
     h \<in> set [hookA, pointA, ctaA, ctaB] \<and> clip_type h = Hook \<and>
     distinct idxs \<and> list_all (\<lambda>i. i < length [pointA] \<and> clip_type ([pointA] ! i) = SellingPoint) idxs \<and>
     1 \<le> length idxs \<and> length idxs \<le> min 3 (length [pointA]) \<and>
     ct \<in> set [hookA, pointA, ctaA, ctaB] \<and> clip_type ct = Cta \<and>
     (6::real) = sum_list (map clip_duration [hookA, pointA, ctaB]))"
proof -
  let ?s2 = "\<lparr>seq_id = ''sequence-2'', seq_clips = [hookA, pointA, ctaB], seq_duration = 6\<rparr>"
  let ?seqs = "[\<lparr>seq_id = ''sequence-1'', seq_clips = [hookA, pointA, ctaA], seq_duration = 13/2\<rparr>, ?s2]"
  have r: "valid_rnd rndA" by (simp add: valid_rnd_def rndA_def)
  have g: "generate exact rndA [hookA, pointA, ctaA, ctaB] = Inr ?seqs"
    by code_simp
  have m: "?s2 \<in> set ?seqs" by simp
  have p: "[pointA] = filter (\<lambda>clip. clip_type clip = SellingPoint) [hookA, pointA, ctaA, ctaB]"
    by (simp add: hookA_def pointA_def ctaA_def ctaB_def)
  have n: "[pointA] \<noteq> []" by simp
  show ?thesis using r g p generate_sequence_shape[OF r g m p n] by simp
qed

subsection \<open>The ceiling, the target and the number of sequences\<close>

lemma foldl_plus_upt:
  "foldl (\<lambda>a b. a + b) 0 (map (\<lambda>i. g (i + 1)) [0..<m]) = (\<Sum>k = 1..m. (g k :: nat))"
  by (induction m) simp_all

text \<open>
  Without rounding, the ceiling is the product of the numbers of hooks and calls to action
  with the sum of the binomial coefficients for 1 to \<open>min 3 |points|\<close> selling points;
  for an empty pool the sum is empty, hence 0. With the rounding of doubles a term for
  three selling points can be one less.
\<close>

lemma maxCombinations_formula:
  "maxCombinations (\<lambda>x. x) hooks sps ctas =
     length hooks * length ctas * (\<Sum>k = 1..min 3 (length sps). length sps choose k)"
  unfolding maxCombinations_def maxSellingPoints_of_def binomialCoefficient_choose
  by (simp only: foldl_plus_upt)

text \<open>
  The loop never returns more than the target, and it returns exactly the target unless
  it has used all its attempts.
\<close>

lemma gen_loop_count:
  "length seqs \<le> target \<Longrightarrow> attempts \<le> maxAttempts \<Longrightarrow>
   gen_loop rnd hooks sps ctas m target seqs used attempts c = (res, att) \<Longrightarrow>
   length res \<le> target \<and> att \<le> maxAttempts \<and> (length res = target \<or> att = maxAttempts)"
proof (induction rnd hooks sps ctas m target seqs used attempts c rule: gen_loop.induct)
  case (1 rnd hooks sps ctas m target seqs used attempts c)
  show ?case
  proof (cases "length seqs < target \<and> attempts < maxAttempts")
    case False
    then have "res = seqs" "att = attempts" using "1.prems"(3) by (simp_all add: gen_loop_stop)
    then show ?thesis using False "1.prems"(1,2) by auto
  next
    case True
    obtain sh ssp sc c' where d: "draw rnd c hooks sps ctas m = ((sh, ssp, sc), c')"
      by (metis prod_cases3 surj_pair)
    show ?thesis
    proof (cases "combinationKey sh ssp sc \<notin> used")
      case False
      have "gen_loop rnd hooks sps ctas m target seqs used (attempts + 1) c' = (res, att)"
        using gen_loop_dup[OF True d False] "1.prems"(3) by simp
      then show ?thesis
        using "1.IH"(2)[OF True d[symmetric] refl refl False] "1.prems"(1) True by simp
    next
      case fresh: True
      let ?s = "\<lparr>seq_id = ''sequence-'' @ show_nat (length seqs + 1),
                 seq_clips = [sh] @ ssp @ [sc], seq_duration = totalDuration ([sh] @ ssp @ [sc])\<rparr>"
      have "gen_loop rnd hooks sps ctas m target (seqs @ [?s])
                     (insert (combinationKey sh ssp sc) used) (attempts + 1) c' = (res, att)"
        using gen_loop_fresh[OF True d fresh] "1.prems"(3) by simp
      then show ?thesis
        using "1.IH"(1)[OF True d[symmetric] refl refl fresh refl] True by simp
    qed
  qed
qed

text \<open>
  C4. For one hook, no selling point and one call to action the code computes the
  ceiling 0, not 1: the target is 0 and the loop returns no sequence after 0 of its 100
  attempts, where \<open>min 10 (1 * 1 * 1) = 1\<close> sequence is expected.
\<close>

theorem ceiling_hook_cta_only:
  "maxSellingPoints_of [] = 0 \<and> maxCombinations fl [hookA] [] [ctaA] = 0 \<and>
   targetSequences_of fl [hookA] [] [ctaA] = 0 \<and>
   gen_loop rnd [hookA] [] [ctaA] 0 0 [] {} 0 0 = ([], 0) \<and>
   min 10 (length [hookA] * length [ctaA] * 1) = (1::nat)"
  by (simp add: maxSellingPoints_of_def maxCombinations_def targetSequences_of_def gen_loop.simps)

subsection \<open>The deduplication key\<close>

lemma sep_split:
  "b \<notin> set x \<Longrightarrow> b \<notin> set y \<Longrightarrow> x @ b # r = y @ b # r' \<Longrightarrow> x = y \<and> r = r'"
proof (induction x arbitrary: y)
  case Nil
  then show ?case by (cases y) auto
next
  case (Cons a x)
  then show ?case by (cases y) auto
qed

lemma bar_split:
  assumes "CHR ''|'' \<notin> set x" "CHR ''|'' \<notin> set y" "x @ ''|'' @ r = y @ ''|'' @ r'"
  shows "x = y \<and> r = r'"
  using assms sep_split[of "CHR ''|''" x y r r'] by simp

lemma join_Cons: "xs \<noteq> [] \<Longrightarrow> join sep (x # xs) = x @ sep @ join sep xs"
  by (cases xs) simp_all

lemma join_bar_inj:
  "xs \<noteq> [] \<Longrightarrow> ys \<noteq> [] \<Longrightarrow> \<forall>x \<in> set xs. CHR ''|'' \<notin> set x \<Longrightarrow> \<forall>y \<in> set ys. CHR ''|'' \<notin> set y \<Longrightarrow>
   join ''|'' xs = join ''|'' ys \<Longrightarrow> xs = ys"
proof (induction xs arbitrary: ys)
  case Nil
  then show ?case by simp
next
  case (Cons x xs')
  from Cons.prems(2) obtain y ys' where ys: "ys = y # ys'" by (cases ys) auto
  have nx: "CHR ''|'' \<notin> set x" and ny: "CHR ''|'' \<notin> set y"
    using Cons.prems(3,4) ys by simp_all
  show ?case
  proof (cases "xs' = []")
    case True
    show ?thesis
    proof (cases "ys' = []")
      case True
      then show ?thesis using \<open>xs' = []\<close> Cons.prems(5) ys by simp
    next
      case False
      then have "x = y @ ''|'' @ join ''|'' ys'"
        using \<open>xs' = []\<close> Cons.prems(5) ys by (simp add: join_Cons)
      then have "CHR ''|'' \<in> set x" by simp
      then show ?thesis using nx by simp
    qed
  next
    case False
    show ?thesis
    proof (cases "ys' = []")
      case True
      then have "y = x @ ''|'' @ join ''|'' xs'"
        using \<open>xs' \<noteq> []\<close> Cons.prems(5) ys by (simp add: join_Cons)
      then have "CHR ''|'' \<in> set y" by simp
      then show ?thesis using ny by simp
    next
      case ne: False
      have "x @ ''|'' @ join ''|'' xs' = y @ ''|'' @ join ''|'' ys'"
        using False ne Cons.prems(5) ys by (simp add: join_Cons)
      then have xy: "x = y" and r: "join ''|'' xs' = join ''|'' ys'"
        using bar_split[OF nx ny] by blast+
      have "xs' = ys'"
        using Cons.IH[OF False ne _ _ r] Cons.prems(3,4) ys by simp
      then show ?thesis using xy ys by simp
    qed
  qed
qed

lemma show_nat_digits: "set (show_nat n) \<subseteq> set ''0123456789''"
proof (induction n rule: show_nat.induct)
  case (1 n)
  have d: "digit_char k \<in> set ''0123456789''" if "k < 10" for k
    unfolding digit_char_def using that nth_mem[of k "''0123456789''"] by simp
  show ?case
  proof (cases "n < 10")
    case True
    then show ?thesis using d[of n] by (subst show_nat.simps) simp
  next
    case False
    then show ?thesis using 1 d[of "n mod 10"] by (subst show_nat.simps) simp
  qed
qed


lemma new_clip_id_no_bar:
  assumes "number_text r"
  shows "CHR ''|'' \<notin> set (new_clip_id t r)"
proof -
  have "CHR ''|'' \<notin> set (show_nat t)" using show_nat_digits[of t] by auto
  moreover have "CHR ''|'' \<notin> set r" using assms unfolding number_text_def by auto
  ultimately show ?thesis by (simp add: new_clip_id_def)
qed

lemma combinationKey_eq:
  assumes a: "list_all (\<lambda>c. CHR ''|'' \<notin> set (clip_id c)) ([h] @ sel @ [ct])"
    and b: "list_all (\<lambda>c. CHR ''|'' \<notin> set (clip_id c)) ([h'] @ sel' @ [ct'])"
    and k: "combinationKey h sel ct = combinationKey h' sel' ct'"
  shows "clip_id h = clip_id h' \<and> sort (map clip_id sel) = sort (map clip_id sel') \<and>
        mset (map clip_id sel) = mset (map clip_id sel') \<and> clip_id ct = clip_id ct'"
proof -
  let ?xs = "[clip_id h] @ sort (map clip_id sel) @ [clip_id ct]"
  let ?ys = "[clip_id h'] @ sort (map clip_id sel') @ [clip_id ct']"
  have 1: "\<forall>x \<in> set ?xs. CHR ''|'' \<notin> set x" using a by (auto simp: list_all_iff)
  have 2: "\<forall>y \<in> set ?ys. CHR ''|'' \<notin> set y" using b by (auto simp: list_all_iff)
  have 3: "join ''|'' ?xs = join ''|'' ?ys" using k by (simp add: combinationKey_def)
  have "?xs = ?ys" by (rule join_bar_inj[OF _ _ 1 2 3]) simp_all
  then have e: "clip_id h = clip_id h'"
    "sort (map clip_id sel) @ [clip_id ct] = sort (map clip_id sel') @ [clip_id ct']"
    by simp_all
  have l: "length (sort (map clip_id sel)) = length (sort (map clip_id sel'))"
    using e(2) by (metis length_append_singleton nat.inject)
  then have s: "sort (map clip_id sel) = sort (map clip_id sel')" and c: "clip_id ct = clip_id ct'"
    using e(2) by simp_all
  have "mset (sort (map clip_id sel)) = mset (sort (map clip_id sel'))" using s by simp
  then have "mset (map clip_id sel) = mset (map clip_id sel')" by simp
  then show ?thesis using e(1) s c by blast
qed

text \<open>
  A state that the loop passes through leads to the result of the whole run, and in
  every such state the set of used keys is the set of the keys of the stored sequences.
\<close>

lemma gen_reach_run:
  "gen_reach rnd hooks sps ctas m target seqs used attempts c \<Longrightarrow>
   gen_loop rnd hooks sps ctas m target seqs used attempts c
     = gen_loop rnd hooks sps ctas m target [] {} 0 0"
proof (induction rule: gen_reach.induct)
  case reach_start
  show ?case by simp
next
  case (reach_keep seqs used attempts c sh ssp sc c')
  show ?case
    using gen_loop_fresh[OF reach_keep.hyps(2,3,4)] reach_keep.IH by simp
next
  case (reach_discard seqs used attempts c sh ssp sc c')
  have "\<not> combinationKey sh ssp sc \<notin> used" using reach_discard.hyps(4) by simp
  from gen_loop_dup[OF reach_discard.hyps(2,3) this] reach_discard.IH show ?case by simp
qed

lemma gen_reach_inv:
  assumes "valid_rnd rnd" and "hooks \<noteq> []" and "ctas \<noteq> []"
  shows "gen_reach rnd hooks sps ctas (min 3 (length sps)) target seqs used attempts c \<Longrightarrow>
         seqs_ok hooks sps ctas seqs \<and> used = seq_key ` set seqs"
proof (induction rule: gen_reach.induct)
  case reach_start
  show ?case by (simp add: seqs_ok_def)
next
  case (reach_keep seqs used attempts c sh ssp sc c')
  let ?s = "\<lparr>seq_id = ''sequence-'' @ show_nat (length seqs + 1),
             seq_clips = [sh] @ ssp @ [sc], seq_duration = totalDuration ([sh] @ ssp @ [sc])\<rparr>"
  note sh = draw_shape[OF assms reach_keep.hyps(3)]
  have k: "seq_key ?s = combinationKey sh ssp sc" by (rule seq_key_new)
  have "shaped hooks sps ctas ?s" unfolding shaped_def using sh by auto
  then have ok: "seqs_ok hooks sps ctas (seqs @ [?s])"
    using reach_keep.IH reach_keep.hyps(4) k unfolding seqs_ok_def by auto
  have u: "insert (combinationKey sh ssp sc) used = seq_key ` set (seqs @ [?s])"
    using reach_keep.IH k by auto
  show ?case using ok u by blast
next
  case (reach_discard seqs used attempts c sh ssp sc c')
  then show ?case by blast
qed

lemma picks_subset: "picks sps sel \<Longrightarrow> set sel \<subseteq> set sps"
  unfolding picks_def by auto

lemma discarded_is_stored:
  assumes rnd: "valid_rnd rnd" and h: "hooks \<noteq> []" and c: "ctas \<noteq> []"
    and bars: "list_all (\<lambda>c. CHR ''|'' \<notin> set (clip_id c)) (hooks @ sps @ ctas)"
    and r: "gen_reach rnd hooks sps ctas (min 3 (length sps)) target seqs used attempts k"
    and d: "draw rnd k hooks sps ctas (min 3 (length sps)) = ((dh, dsel, dct), k')"
    and u: "combinationKey dh dsel dct \<in> used"
  shows "\<exists>s kh ksel kct. s \<in> set seqs \<and> seq_clips s = [kh] @ ksel @ [kct] \<and>
           clip_id dh = clip_id kh \<and> mset (map clip_id dsel) = mset (map clip_id ksel) \<and>
           clip_id dct = clip_id kct"
proof -
  from gen_reach_inv[OF rnd h c r] have ok: "seqs_ok hooks sps ctas seqs"
    and us: "used = seq_key ` set seqs" by simp_all
  from u us obtain s where s: "s \<in> set seqs" and ks: "seq_key s = combinationKey dh dsel dct"
    by auto
  from ok s have "shaped hooks sps ctas s" by (simp add: seqs_ok_def)
  then obtain kh ksel kct where cl: "seq_clips s = [kh] @ ksel @ [kct]" and kh: "kh \<in> set hooks"
    and kp: "picks sps ksel" and kc: "kct \<in> set ctas"
    unfolding shaped_def by blast
  have kk: "seq_key s = combinationKey kh ksel kct"
    by (simp add: seq_key_def cl butlast_append)
  note ds = draw_shape[OF rnd h c d]
  have b: "\<forall>x \<in> set hooks \<union> set sps \<union> set ctas. CHR ''|'' \<notin> set (clip_id x)"
    using bars by (auto simp: list_all_iff)
  have b1: "list_all (\<lambda>c. CHR ''|'' \<notin> set (clip_id c)) ([dh] @ dsel @ [dct])"
    using b ds(1,2) picks_subset[OF ds(3)] by (auto simp: list_all_iff)
  have b2: "list_all (\<lambda>c. CHR ''|'' \<notin> set (clip_id c)) ([kh] @ ksel @ [kct])"
    using b kh kc picks_subset[OF kp] by (auto simp: list_all_iff)
  have "combinationKey dh dsel dct = combinationKey kh ksel kct" using ks kk by simp
  from combinationKey_eq[OF b1 b2 this] show ?thesis using s cl by blast
qed

text \<open>
  C10. When no clip id contains a bar, equal keys come from equal combinations: the same
  hook id, the same selling-point ids up to order, the same call-to-action id. An id
  built by \<open>handleFileUpload\<close> contains no bar. In a run of \<open>generate\<close> on clips
  whose ids contain no bar, whenever the loop discards a drawn selection because its key
  is in the set of used combinations, a sequence stored before has that very
  combination: a new combination is never discarded.
\<close>

theorem combinationKey_injective:
  "(list_all (\<lambda>c. CHR ''|'' \<notin> set (clip_id c)) ([h] @ sel @ [ct]) \<and>
    list_all (\<lambda>c. CHR ''|'' \<notin> set (clip_id c)) ([h'] @ sel' @ [ct']) \<and>
    combinationKey h sel ct = combinationKey h' sel' ct'
    \<longrightarrow> clip_id h = clip_id h' \<and> sort (map clip_id sel) = sort (map clip_id sel') \<and>
        mset (map clip_id sel) = mset (map clip_id sel') \<and> clip_id ct = clip_id ct') \<and>
   (number_text r \<longrightarrow> CHR ''|'' \<notin> set (new_clip_id t r)) \<and>
   (valid_rnd rnd \<and> list_all (\<lambda>c. CHR ''|'' \<notin> set (clip_id c)) clips \<and>
    hooks = filter (\<lambda>clip. clip_type clip = Hook) clips \<and>
    points = filter (\<lambda>clip. clip_type clip = SellingPoint) clips \<and>
    ctas = filter (\<lambda>clip. clip_type clip = Cta) clips \<and>
    generate fl rnd clips = Inr result \<and>
    gen_reach rnd hooks points ctas (maxSellingPoints_of points)
      (targetSequences_of fl hooks points ctas) newSequences usedCombinations attempts c \<and>
    length newSequences < targetSequences_of fl hooks points ctas \<and> attempts < maxAttempts \<and>
    draw rnd c hooks points ctas (maxSellingPoints_of points) = ((dh, dsel, dct), c') \<and>
    combinationKey dh dsel dct \<in> usedCombinations
    \<longrightarrow> result = fst (gen_loop rnd hooks points ctas (maxSellingPoints_of points)
                       (targetSequences_of fl hooks points ctas)
                       newSequences usedCombinations attempts c) \<and>
        gen_loop rnd hooks points ctas (maxSellingPoints_of points)
          (targetSequences_of fl hooks points ctas) newSequences usedCombinations attempts c
          = gen_loop rnd hooks points ctas (maxSellingPoints_of points)
              (targetSequences_of fl hooks points ctas) newSequences usedCombinations
              (attempts + 1) c' \<and>
        (\<exists>s kh ksel kct. s \<in> set newSequences \<and> seq_clips s = [kh] @ ksel @ [kct] \<and>
           clip_id dh = clip_id kh \<and> mset (map clip_id dsel) = mset (map clip_id ksel) \<and>
           clip_id dct = clip_id kct))"
proof -
  let ?m = "maxSellingPoints_of points" and ?t = "targetSequences_of fl hooks points ctas"
  have loop: "result = fst (gen_loop rnd hooks points ctas ?m ?t newSequences usedCombinations attempts c) \<and>
        gen_loop rnd hooks points ctas ?m ?t newSequences usedCombinations attempts c
          = gen_loop rnd hooks points ctas ?m ?t newSequences usedCombinations (attempts + 1) c' \<and>
        (\<exists>s kh ksel kct. s \<in> set newSequences \<and> seq_clips s = [kh] @ ksel @ [kct] \<and>
           clip_id dh = clip_id kh \<and> mset (map clip_id dsel) = mset (map clip_id ksel) \<and>
           clip_id dct = clip_id kct)"
    if a: "valid_rnd rnd \<and> list_all (\<lambda>c. CHR ''|'' \<notin> set (clip_id c)) clips \<and>
      hooks = filter (\<lambda>clip. clip_type clip = Hook) clips \<and>
      points = filter (\<lambda>clip. clip_type clip = SellingPoint) clips \<and>
      ctas = filter (\<lambda>clip. clip_type clip = Cta) clips \<and>
      generate fl rnd clips = Inr result \<and>
      gen_reach rnd hooks points ctas ?m ?t newSequences usedCombinations attempts c \<and>
      length newSequences < ?t \<and> attempts < maxAttempts \<and>
      draw rnd c hooks points ctas ?m = ((dh, dsel, dct), c') \<and>
      combinationKey dh dsel dct \<in> usedCombinations"
  proof -
    from a have rnd: "valid_rnd rnd" and bars: "list_all (\<lambda>c. CHR ''|'' \<notin> set (clip_id c)) clips"
      and hs: "hooks = filter (\<lambda>clip. clip_type clip = Hook) clips"
      and ps: "points = filter (\<lambda>clip. clip_type clip = SellingPoint) clips"
      and cs: "ctas = filter (\<lambda>clip. clip_type clip = Cta) clips"
      and g: "generate fl rnd clips = Inr result"
      and r: "gen_reach rnd hooks points ctas ?m ?t newSequences usedCombinations attempts c"
      and gd: "length newSequences < ?t \<and> attempts < maxAttempts"
      and d: "draw rnd c hooks points ctas ?m = ((dh, dsel, dct), c')"
      and u: "combinationKey dh dsel dct \<in> usedCombinations"
      by blast+
    from g have h: "hooks \<noteq> []" and c: "ctas \<noteq> []"
      and res: "result = fst (gen_loop rnd hooks points ctas ?m ?t [] {} 0 0)"
      unfolding hs ps cs by (auto simp: generate_def Let_def split: if_splits)
    have 1: "result = fst (gen_loop rnd hooks points ctas ?m ?t newSequences usedCombinations attempts c)"
      using res gen_reach_run[OF r] by simp
    have nu: "\<not> combinationKey dh dsel dct \<notin> usedCombinations" using u by simp
    note 2 = gen_loop_dup[OF gd d nu]
    have b: "list_all (\<lambda>c. CHR ''|'' \<notin> set (clip_id c)) (hooks @ points @ ctas)"
      using bars unfolding hs ps cs by (auto simp: list_all_iff)
    have m: "?m = min 3 (length points)" by (simp add: maxSellingPoints_of_def)
    note 3 = discarded_is_stored[OF rnd h c b r[unfolded m] d[unfolded m] u]
    show ?thesis using 1 2 3 by blast
  qed
  have p1: "clip_id h = clip_id h' \<and> sort (map clip_id sel) = sort (map clip_id sel') \<and>
        mset (map clip_id sel) = mset (map clip_id sel') \<and> clip_id ct = clip_id ct'"
    if "list_all (\<lambda>c. CHR ''|'' \<notin> set (clip_id c)) ([h] @ sel @ [ct]) \<and>
    list_all (\<lambda>c. CHR ''|'' \<notin> set (clip_id c)) ([h'] @ sel' @ [ct']) \<and>
    combinationKey h sel ct = combinationKey h' sel' ct'"
    using that combinationKey_eq by blast
  show ?thesis using p1 new_clip_id_no_bar loop by blast
qed

theorem combinationKey_injective_witness:
  "list_all (\<lambda>c. CHR ''|'' \<notin> set (clip_id c)) ([hookA] @ [pointB, pointA] @ [ctaA]) \<and>
   list_all (\<lambda>c. CHR ''|'' \<notin> set (clip_id c)) ([hookA] @ [pointA, pointB] @ [ctaA]) \<and>
   combinationKey hookA [pointB, pointA] ctaA = combinationKey hookA [pointA, pointB] ctaA \<and>
   mset (map clip_id [pointB, pointA]) = mset (map clip_id [pointA, pointB]) \<and>
   number_text ''0.1'' \<and> new_clip_id 1 ''0.1'' = clip_id hookA \<and>
   CHR ''|'' \<notin> set (new_clip_id 1 ''0.1'') \<and>
   valid_rnd (\<lambda>k. 0) \<and>
   list_all (\<lambda>c. CHR ''|'' \<notin> set (clip_id c)) [hookA, pointA, pointB, ctaA] \<and>
   generate exact (\<lambda>k. 0) [hookA, pointA, pointB, ctaA] = Inr [seqC] \<and>
   gen_reach (\<lambda>k. 0) [hookA] [pointA, pointB] [ctaA] 2 3
     [seqC] {''clip-1-0.1|clip-3-0.3|clip-4-0.4''} 1 4 \<and>
   draw (\<lambda>k. 0) 4 [hookA] [pointA, pointB] [ctaA] 2 = ((hookA, [pointB], ctaA), 8) \<and>
   combinationKey hookA [pointB] ctaA = ''clip-1-0.1|clip-3-0.3|clip-4-0.4'' \<and>
   [seqC] = fst (gen_loop (\<lambda>k. 0) [hookA] [pointA, pointB] [ctaA] 2 3
                   [seqC] {''clip-1-0.1|clip-3-0.3|clip-4-0.4''} 1 4) \<and>
   (\<exists>s kh ksel kct. s \<in> set [seqC] \<and> seq_clips s = [kh] @ ksel @ [kct] \<and>
      clip_id hookA = clip_id kh \<and> mset (map clip_id [pointB]) = mset (map clip_id ksel) \<and>
      clip_id ctaA = clip_id kct)"
proof -
  let ?rnd = "\<lambda>k::nat. 0::real"
  let ?clips = "[hookA, pointA, pointB, ctaA]"
  let ?key = "''clip-1-0.1|clip-3-0.3|clip-4-0.4''"
  have a: "list_all (\<lambda>c. CHR ''|'' \<notin> set (clip_id c)) ([hookA] @ [pointB, pointA] @ [ctaA])"
    by (simp add: hookA_def pointA_def pointB_def ctaA_def)
  have b: "list_all (\<lambda>c. CHR ''|'' \<notin> set (clip_id c)) ([hookA] @ [pointA, pointB] @ [ctaA])"
    by (simp add: hookA_def pointA_def pointB_def ctaA_def)
  have k: "combinationKey hookA [pointB, pointA] ctaA = combinationKey hookA [pointA, pointB] ctaA"
    by code_simp
  have n: "number_text ''0.1''" by (simp add: number_text_def)
  have i: "new_clip_id 1 ''0.1'' = clip_id hookA"
    by (simp add: new_clip_id_def hookA_def show_nat.simps digit_char_def)
  have v: "valid_rnd ?rnd" by (simp add: valid_rnd_def)
  have bars: "list_all (\<lambda>c. CHR ''|'' \<notin> set (clip_id c)) ?clips"
    by (simp add: hookA_def pointA_def pointB_def ctaA_def)
  have hs: "[hookA] = filter (\<lambda>clip. clip_type clip = Hook) ?clips"
    and ps: "[pointA, pointB] = filter (\<lambda>clip. clip_type clip = SellingPoint) ?clips"
    and cs: "[ctaA] = filter (\<lambda>clip. clip_type clip = Cta) ?clips"
    by (simp_all add: hookA_def pointA_def pointB_def ctaA_def)
  have m: "maxSellingPoints_of [pointA, pointB] = 2" by (simp add: maxSellingPoints_of_def)
  have t: "targetSequences_of exact [hookA] [pointA, pointB] [ctaA] = 3" by code_simp
  have g: "generate exact ?rnd ?clips = Inr [seqC]" by code_simp
  have d0: "draw ?rnd 0 [hookA] [pointA, pointB] [ctaA] 2 = ((hookA, [pointB], ctaA), 4)"
    by code_simp
  have d1: "draw ?rnd 4 [hookA] [pointA, pointB] [ctaA] 2 = ((hookA, [pointB], ctaA), 8)"
    by code_simp
  have kv: "combinationKey hookA [pointB] ctaA = ?key" by code_simp
  have g0: "length ([]::Sequence list) < 3 \<and> 0 < maxAttempts" by (simp add: maxAttempts_def)
  have k0: "combinationKey hookA [pointB] ctaA \<notin> {}" by simp
  have e1: "[] @ [\<lparr>seq_id = ''sequence-'' @ show_nat (length ([]::Sequence list) + 1),
                   seq_clips = [hookA] @ [pointB] @ [ctaA],
                   seq_duration = totalDuration ([hookA] @ [pointB] @ [ctaA])\<rparr>] = [seqC]"
    by code_simp
  have r1: "gen_reach ?rnd [hookA] [pointA, pointB] [ctaA] 2 3 [seqC] {?key} 1 4"
    using gen_reach.reach_keep[OF gen_reach.reach_start g0 d0 k0] unfolding e1 kv by simp
  have g1: "length [seqC] < (3::nat) \<and> 1 < maxAttempts" by (simp add: maxAttempts_def)
  have u: "combinationKey hookA [pointB] ctaA \<in> {?key}" using kv by simp
  have hyp: "valid_rnd ?rnd \<and> list_all (\<lambda>c. CHR ''|'' \<notin> set (clip_id c)) ?clips \<and>
    [hookA] = filter (\<lambda>clip. clip_type clip = Hook) ?clips \<and>
    [pointA, pointB] = filter (\<lambda>clip. clip_type clip = SellingPoint) ?clips \<and>
    [ctaA] = filter (\<lambda>clip. clip_type clip = Cta) ?clips \<and>
    generate exact ?rnd ?clips = Inr [seqC] \<and>
    gen_reach ?rnd [hookA] [pointA, pointB] [ctaA] (maxSellingPoints_of [pointA, pointB])
      (targetSequences_of exact [hookA] [pointA, pointB] [ctaA]) [seqC] {?key} 1 4 \<and>
    length [seqC] < targetSequences_of exact [hookA] [pointA, pointB] [ctaA] \<and> 1 < maxAttempts \<and>
    draw ?rnd 4 [hookA] [pointA, pointB] [ctaA] (maxSellingPoints_of [pointA, pointB])
      = ((hookA, [pointB], ctaA), 8) \<and>
    combinationKey hookA [pointB] ctaA \<in> {?key}"
    unfolding m t using v bars hs ps cs g r1 g1 d1 u by blast
  note c = combinationKey_injective[where clips = ?clips and rnd = ?rnd and fl = exact
      and hooks = "[hookA]" and points = "[pointA, pointB]" and ctas = "[ctaA]"
      and result = "[seqC]" and newSequences = "[seqC]" and usedCombinations = "{?key}"
      and attempts = 1 and c = 4 and dh = hookA and dsel = "[pointB]" and dct = ctaA and c' = 8
      and h = hookA and sel = "[pointB, pointA]" and ct = ctaA
      and h' = hookA and sel' = "[pointA, pointB]" and ct' = ctaA and r = "''0.1''" and t = 1]
  from c have c1: "mset (map clip_id [pointB, pointA]) = mset (map clip_id [pointA, pointB])"
    using a b k by blast
  from c have c2: "CHR ''|'' \<notin> set (new_clip_id 1 ''0.1'')" using n by blast
  from c[THEN conjunct2, THEN conjunct2, THEN mp, OF hyp]
  have c3: "[seqC] = fst (gen_loop ?rnd [hookA] [pointA, pointB] [ctaA] 2 3 [seqC] {?key} 1 4)"
    and c4: "\<exists>s kh ksel kct. s \<in> set [seqC] \<and> seq_clips s = [kh] @ ksel @ [kct] \<and>
      clip_id hookA = clip_id kh \<and> mset (map clip_id [pointB]) = mset (map clip_id ksel) \<and>
      clip_id ctaA = clip_id kct"
    unfolding m t by blast+
  show ?thesis using a b k c1 n i c2 v bars g r1 d1 kv c3 c4 by blast
qed

section \<open>Properties of the export pipeline\<close>

subsection \<open>File names\<close>

lemma digit_char_inj: "a < 10 \<Longrightarrow> b < 10 \<Longrightarrow> digit_char a = digit_char b \<Longrightarrow> a = b"
proof -
  assume a: "a < 10" and b: "b < 10" and e: "digit_char a = digit_char b"
  have d: "distinct ''0123456789''" by simp
  have "a < length ''0123456789''" "b < length ''0123456789''" using a b by simp_all
  then show "a = b" using e nth_eq_iff_index_eq[OF d] unfolding digit_char_def by blast
qed

lemma show_nat_nonempty: "show_nat n \<noteq> []"
  by (subst show_nat.simps) simp

lemma show_nat_inj: "show_nat n = show_nat m \<Longrightarrow> n = m"
proof (induction n arbitrary: m rule: show_nat.induct)
  case (1 n)
  show ?case
  proof (cases "n < 10")
    case True
    then have sn: "show_nat n = [digit_char n]" by (subst show_nat.simps) simp
    show ?thesis
    proof (cases "m < 10")
      case m: True
      then have "show_nat m = [digit_char m]" by (subst show_nat.simps) simp
      then show ?thesis using sn "1.prems" True m digit_char_inj by simp
    next
      case False
      then have "show_nat m = show_nat (m div 10) @ [digit_char (m mod 10)]"
        by (subst show_nat.simps) simp
      then show ?thesis using sn "1.prems" show_nat_nonempty[of "m div 10"] by simp
    qed
  next
    case False
    then have sn: "show_nat n = show_nat (n div 10) @ [digit_char (n mod 10)]"
      by (subst show_nat.simps) simp
    show ?thesis
    proof (cases "m < 10")
      case True
      then have "show_nat m = [digit_char m]" by (subst show_nat.simps) simp
      then show ?thesis using sn "1.prems" show_nat_nonempty[of "n div 10"] by simp
    next
      case m: False
      then have "show_nat m = show_nat (m div 10) @ [digit_char (m mod 10)]"
        by (subst show_nat.simps) simp
      then have e: "show_nat (n div 10) = show_nat (m div 10)"
        and dg: "digit_char (n mod 10) = digit_char (m mod 10)"
        using sn "1.prems" by simp_all
      have "n div 10 = m div 10" using "1.IH"[OF False e] .
      moreover have "n mod 10 = m mod 10" using dg by (intro digit_char_inj) simp_all
      ultimately show ?thesis by (metis div_mult_mod_eq)
    qed
  qed
qed

lemma input_name_inj [simp]: "input_name i = input_name j \<longleftrightarrow> i = j"
  using show_nat_inj by (auto simp: input_name_def)

lemma restitched_name_inj [simp]: "restitched_name i = restitched_name j \<longleftrightarrow> i = j"
  using show_nat_inj[of "i + 1" "j + 1"] by (auto simp: restitched_name_def)

lemma input_name_not_list [simp]: "input_name i \<noteq> ''list.txt''" "''list.txt'' \<noteq> input_name i"
  by (simp_all add: input_name_def)

lemma input_name_not_output [simp]: "input_name i \<noteq> ''output.mp4''" "''output.mp4'' \<noteq> input_name i"
  by (simp_all add: input_name_def)

subsection \<open>Staging and the manifest\<close>

lemma stage_loop_ok:
  "list_all (\<lambda>c. clip_file c \<noteq> None) clips \<Longrightarrow>
   \<exists>fs1. stage_loop i clips content fs =
           (Inr (content @ concat (map list_line [i..<i + length clips])), fs1) \<and>
         (\<forall>k<length clips. fs1 (input_name (i + k)) = clip_file (clips ! k)) \<and>
         (\<forall>n. (\<forall>k<length clips. n \<noteq> input_name (i + k)) \<longrightarrow> fs1 n = fs n)"
proof (induction clips arbitrary: i content fs)
  case Nil
  then show ?case by simp
next
  case (Cons c rest)
  from Cons.prems obtain d where d: "clip_file c = Some d" and r: "list_all (\<lambda>c. clip_file c \<noteq> None) rest"
    by auto
  from Cons.IH[OF r, of "i + 1" "content @ list_line i" "fs(input_name i \<mapsto> d)"]
  obtain fs1 where
    s: "stage_loop (i + 1) rest (content @ list_line i) (fs(input_name i \<mapsto> d)) =
          (Inr ((content @ list_line i) @ concat (map list_line [i + 1..<i + 1 + length rest])), fs1)"
    and l: "\<forall>k<length rest. fs1 (input_name (i + 1 + k)) = clip_file (rest ! k)"
    and f: "\<forall>n. (\<forall>k<length rest. n \<noteq> input_name (i + 1 + k)) \<longrightarrow> fs1 n = (fs(input_name i \<mapsto> d)) n"
    by blast
  have u: "[i..<i + length (c # rest)] = i # [i + 1..<i + 1 + length rest]"
    using upt_conv_Cons[of i "i + length (c # rest)"] by simp
  have 1: "stage_loop i (c # rest) content fs =
          (Inr (content @ concat (map list_line [i..<i + length (c # rest)])), fs1)"
    using s d unfolding u by simp
  have 2: "fs1 (input_name (i + k)) = clip_file ((c # rest) ! k)" if "k < length (c # rest)" for k
  proof (cases k)
    case 0
    have "fs1 (input_name i) = (fs(input_name i \<mapsto> d)) (input_name i)"
      using f by simp
    then show ?thesis using 0 d by simp
  next
    case (Suc k')
    then show ?thesis using l that by simp
  qed
  have 3: "fs1 n = fs n" if "\<forall>k<length (c # rest). n \<noteq> input_name (i + k)" for n
  proof -
    have "n \<noteq> input_name i" using that by force
    moreover have "\<forall>k<length rest. n \<noteq> input_name (i + 1 + k)" using that by force
    ultimately show ?thesis using f by simp
  qed
  show ?case using 1 2 3 by blast
qed

lemma export_body_exec_arg:
  assumes "list_all (\<lambda>c. clip_file c \<noteq> None) (seq_clips sequence)"
  shows "\<exists>fs2. (\<forall>st'. files st' = files st \<longrightarrow>
                   export_body exec sequence index st' = export_body (\<lambda>_. exec fs2) sequence index st') \<and>
           fs2 ''list.txt'' = Some (concat (map list_line [0..<length (seq_clips sequence)])) \<and>
           (\<forall>k<length (seq_clips sequence). fs2 (input_name k) = clip_file (seq_clips sequence ! k))"
proof -
  from stage_loop_ok[OF assms, of 0 "[]" "files st"] obtain fs1 where
    s: "stage_loop 0 (seq_clips sequence) [] (files st) =
          (Inr (concat (map list_line [0..<length (seq_clips sequence)])), fs1)"
    and l: "\<forall>k<length (seq_clips sequence). fs1 (input_name k) = clip_file (seq_clips sequence ! k)"
    by auto
  let ?fs2 = "fs1(''list.txt'' \<mapsto> concat (map list_line [0..<length (seq_clips sequence)]))"
  have "export_body exec sequence index st' = export_body (\<lambda>_. exec ?fs2) sequence index st'"
    if "files st' = files st" for st'
    using s that by (simp add: export_body_def Let_def)
  moreover have "?fs2 ''list.txt'' = Some (concat (map list_line [0..<length (seq_clips sequence)]))"
    by simp
  moreover have "\<forall>k<length (seq_clips sequence). ?fs2 (input_name k) = clip_file (seq_clips sequence ! k)"
    using l by simp
  ultimately show ?thesis by blast
qed

lemma exportSequence_exec_arg:
  assumes "list_all (\<lambda>c. clip_file c \<noteq> None) (seq_clips sequence)"
  shows "\<exists>fs2. exportSequence exec sequence index st = exportSequence (\<lambda>_. exec fs2) sequence index st \<and>
           fs2 ''list.txt'' = Some (concat (map list_line [0..<length (seq_clips sequence)])) \<and>
           (\<forall>k<length (seq_clips sequence). fs2 (input_name k) = clip_file (seq_clips sequence ! k))"
proof -
  from export_body_exec_arg[OF assms, of st exec index] obtain fs2 where
    b: "\<forall>st'. files st' = files st \<longrightarrow>
                   export_body exec sequence index st' = export_body (\<lambda>_. exec fs2) sequence index st'"
    and m: "fs2 ''list.txt'' = Some (concat (map list_line [0..<length (seq_clips sequence)]))"
    and i: "\<forall>k<length (seq_clips sequence). fs2 (input_name k) = clip_file (seq_clips sequence ! k)"
    by blast
  have "exportSequence exec sequence index st = exportSequence (\<lambda>_. exec fs2) sequence index st"
    unfolding exportSequence_def Let_def using b by (simp add: toast_success_def)
  then show ?thesis using m i by blast
qed

subsection \<open>The loop over the sequences\<close>

lemma export_body_batch:
  assumes "export_body exec s (Some i) st = (r, st')"
  shows "st' = st\<lparr>files := files st'\<rparr>" and "r = Inr x \<Longrightarrow> \<exists>d. x = Some (restitched_name i, d)"
  using assms
  by (auto simp: export_body_def Let_def split: prod.splits sum.splits exec_outcome.splits option.splits)

lemma exportSequence_batch:
  assumes e: "exportSequence exec s (Some i) st = (r, st')"
    and "\<not> ffmpegLoading st" and "ffmpegLoaded st"
  shows "ffmpegLoading st' = ffmpegLoading st" and "ffmpegLoaded st' = ffmpegLoaded st"
    and "downloads st' = downloads st" and "sequences st' = sequences st"
    and "r = Inr x \<Longrightarrow> \<exists>d. x = Some (restitched_name i, d)"
proof -
  let ?st1 = "if not_index (Some i) then toast_success ''Starting export...'' (st\<lparr>loading := True\<rparr>)
              else st\<lparr>loading := True\<rparr>"
  obtain rb stb where b: "export_body exec s (Some i) ?st1 = (rb, stb)" by force
  note bb = export_body_batch[OF b]
  have f: "ffmpegLoading stb = ffmpegLoading st \<and> ffmpegLoaded stb = ffmpegLoaded st \<and>
           downloads stb = downloads st \<and> sequences stb = sequences st"
    by (subst bb(1), simp add: toast_success_def)+
  have rr: "r = rb" using e b assms(2,3)
    by (auto simp: exportSequence_def Let_def split: sum.splits)
  have "ffmpegLoading st' = ffmpegLoading stb \<and> ffmpegLoaded st' = ffmpegLoaded stb \<and>
        downloads st' = downloads stb \<and> sequences st' = sequences stb"
    using e b assms(2,3)
    by (auto simp: exportSequence_def Let_def toast_error_def console_error_def split: sum.splits if_splits)
  then show "ffmpegLoading st' = ffmpegLoading st" and "ffmpegLoaded st' = ffmpegLoaded st"
    and "downloads st' = downloads st" and "sequences st' = sequences st"
    using f by simp_all
  show "\<exists>d. x = Some (restitched_name i, d)" if "r = Inr x"
    using bb(2)[of x] rr that by simp
qed

lemma batch_loop_append:
  "batch_loop exec i (pre @ rest) a st =
     (case batch_loop exec i pre a st of
        (Inl e, st') \<Rightarrow> (Inl e, st')
      | (Inr a', st') \<Rightarrow> batch_loop exec (i + length pre) rest a' st')"
proof (induction pre arbitrary: i a st)
  case Nil
  then show ?case by simp
next
  case (Cons s pre)
  show ?case
    by (simp add: Cons.IH split: prod.splits sum.splits)
qed

lemma batch_loop_frame:
  "batch_loop exec i seqs a st = (r, st') \<Longrightarrow> \<not> ffmpegLoading st \<Longrightarrow> ffmpegLoaded st \<Longrightarrow>
   ffmpegLoading st' = ffmpegLoading st \<and> ffmpegLoaded st' = ffmpegLoaded st \<and>
   downloads st' = downloads st \<and> sequences st' = sequences st"
proof (induction seqs arbitrary: i a st)
  case Nil
  then show ?case by simp
next
  case (Cons s seqs)
  obtain r1 st1 where e: "exportSequence exec s (Some i) st = (r1, st1)" by force
  note f = exportSequence_batch(1-4)[OF e Cons.prems(2,3)]
  show ?case
  proof (cases r1)
    case (Inl err)
    then have "st' = st1" using Cons.prems(1) e by simp
    then show ?thesis using f by simp
  next
    case (Inr res)
    then have "batch_loop exec (i + 1) seqs
            (case res of None \<Rightarrow> a | Some r \<Rightarrow> zip_file (restitched_name i) (snd r) a) st1 = (r, st')"
      using Cons.prems(1) e by simp
    from Cons.IH[OF this] f Cons.prems(2,3) show ?thesis by simp
  qed
qed

lemma zip_file_fresh: "name \<notin> fst ` set a \<Longrightarrow> zip_file name d a = a @ [(name, d)]"
  by (induction a) auto

lemma batch_loop_archive:
  "batch_loop exec i seqs a st = (Inr a', st') \<Longrightarrow> \<not> ffmpegLoading st \<Longrightarrow> ffmpegLoaded st \<Longrightarrow>
   (\<forall>n \<in> fst ` set a. \<forall>k \<ge> i. n \<noteq> restitched_name k) \<Longrightarrow>
   \<exists>new. a' = a @ new \<and> map fst new = map restitched_name [i..<i + length seqs] \<and>
     (\<forall>j<length seqs. \<exists>stj stj'.
        exportSequence exec (seqs ! j) (Some (i + j)) stj = (Inr (Some (new ! j)), stj'))"
proof (induction seqs arbitrary: i a st)
  case Nil
  then show ?case by simp
next
  case (Cons s seqs)
  obtain r1 st1 where e: "exportSequence exec s (Some i) st = (r1, st1)" by force
  note f = exportSequence_batch[OF e Cons.prems(2,3)]
  from Cons.prems(1) e obtain res where r1: "r1 = Inr res" by (cases r1) auto
  from f(5)[OF r1] obtain d where res: "res = Some (restitched_name i, d)" by blast
  have fresh: "restitched_name i \<notin> fst ` set a" using Cons.prems(4) by blast
  have step: "batch_loop exec (i + 1) seqs (a @ [(restitched_name i, d)]) st1 = (Inr a', st')"
    using Cons.prems(1) e r1 res zip_file_fresh[OF fresh] by simp
  have nm: "\<forall>n \<in> fst ` set (a @ [(restitched_name i, d)]). \<forall>k \<ge> i + 1. n \<noteq> restitched_name k"
    using Cons.prems(4) by auto
  from Cons.IH[OF step _ _ nm] f(1,2) Cons.prems(2,3)
  obtain new where a': "a' = (a @ [(restitched_name i, d)]) @ new"
    and names: "map fst new = map restitched_name [i + 1..<i + 1 + length seqs]"
    and each: "\<forall>j<length seqs. \<exists>stj stj'.
        exportSequence exec (seqs ! j) (Some (i + 1 + j)) stj = (Inr (Some (new ! j)), stj')"
    by auto
  let ?new = "(restitched_name i, d) # new"
  have 1: "a' = a @ ?new" using a' by simp
  have u: "[i..<i + length (s # seqs)] = i # [i + 1..<i + 1 + length seqs]"
    using upt_conv_Cons[of i "i + length (s # seqs)"] by simp
  have 2: "map fst ?new = map restitched_name [i..<i + length (s # seqs)]"
    unfolding u using names by simp
  have 3: "\<exists>stj stj'. exportSequence exec ((s # seqs) ! j) (Some (i + j)) stj = (Inr (Some (?new ! j)), stj')"
    if "j < length (s # seqs)" for j
  proof (cases j)
    case 0
    then show ?thesis using e r1 res by auto
  next
    case (Suc j')
    then show ?thesis using each that by simp
  qed
  show ?case using 1 2 3 by blast
qed

lemma batch_loop_entry:
  assumes bl: "batch_loop exec 0 seqs [] st0 = (Inr archive, st')"
    and rdy: "\<not> ffmpegLoading st0" "ffmpegLoaded st0" and j: "j < length seqs"
  shows "fst (exportSequence exec (seqs ! j) (Some j)
               (snd (batch_loop exec 0 (take j seqs) [] st0))) = Inr (Some (archive ! j))"
proof -
  let ?pre = "take j seqs" and ?rest = "drop (Suc j) seqs"
  have sp: "seqs = ?pre @ seqs ! j # ?rest" using j by (simp add: id_take_nth_drop)
  have lp: "length ?pre = j" using j by simp
  obtain r1 st1 where p: "batch_loop exec 0 ?pre [] st0 = (r1, st1)" by force
  have w: "batch_loop exec 0 (?pre @ seqs ! j # ?rest) [] st0 = (Inr archive, st')"
    using bl sp by simp
  from w obtain a1 where r1: "r1 = Inr a1"
    by (subst (asm) batch_loop_append) (cases r1; simp add: p)
  have mj: "min (length seqs) j = j" using j by simp
  have c: "batch_loop exec j (seqs ! j # ?rest) a1 st1 = (Inr archive, st')"
    using w by (subst (asm) batch_loop_append) (simp add: p r1 mj)
  have p': "batch_loop exec 0 ?pre [] st0 = (Inr a1, st1)" using p r1 by simp
  from batch_loop_archive[OF p' rdy] obtain new1 where
    n1: "a1 = [] @ new1" "map fst new1 = map restitched_name [0..<0 + length ?pre]"
    by auto
  have la: "length a1 = j" using n1 lp by (metis append_Nil length_map length_upt add_0 diff_zero)
  have names: "fst ` set a1 = restitched_name ` {0..<j}"
    using n1 lp by (metis append_Nil add_0 set_map set_upt)
  have rdy1: "\<not> ffmpegLoading st1" "ffmpegLoaded st1"
    using batch_loop_frame[OF p' rdy] rdy by simp_all
  obtain r2 st2 where e: "exportSequence exec (seqs ! j) (Some j) st1 = (r2, st2)" by force
  from c e obtain res where r2: "r2 = Inr res" by (cases r2) auto
  from exportSequence_batch(5)[OF e rdy1 r2] obtain d where res: "res = Some (restitched_name j, d)"
    by blast
  have rdy2: "\<not> ffmpegLoading st2" "ffmpegLoaded st2"
    using exportSequence_batch(1,2)[OF e rdy1] rdy1 by simp_all
  have fresh: "restitched_name j \<notin> fst ` set a1" unfolding names by auto
  have step: "batch_loop exec (j + 1) ?rest (a1 @ [(restitched_name j, d)]) st2 = (Inr archive, st')"
    using c e r2 res zip_file_fresh[OF fresh] by simp
  have nm: "\<forall>n \<in> fst ` set (a1 @ [(restitched_name j, d)]). \<forall>k \<ge> j + 1. n \<noteq> restitched_name k"
    using names by auto
  from batch_loop_archive[OF step rdy2 nm] obtain new2 where
    "archive = (a1 @ [(restitched_name j, d)]) @ new2" by blast
  then have "archive ! j = (restitched_name j, d)" using la by (simp add: nth_append)
  then show ?thesis using p e r2 res by simp
qed

text \<open>
  C6. When every clip of the sequence has a file, the service is run on a file system
  whose \<open>list.txt\<close> is the text of the lines \<open>file input<k>.mp4\<close>, one per clip, for
  \<open>k = 0, 1, ...\<close> in this order, each ended by a newline, and whose file
  \<open>input<k>.mp4\<close> holds the data of the clip at position \<open>k\<close>.
  When the loop of \<open>downloadAllSequences\<close> succeeds, the archive that is downloaded has
  one entry per sequence, named \<open>restitched <j + 1>.mp4\<close> for \<open>j = 0, 1, ...\<close> in this
  order, and its entry at position \<open>j\<close> is the artifact that the export of sequence \<open>j\<close>
  returned, in the state that the exports of the sequences before it left.
\<close>

theorem export_order:
  "(list_all (\<lambda>c. clip_file c \<noteq> None) (seq_clips sequence) \<longrightarrow>
      (\<exists>fs2. exportSequence exec sequence index st
                = exportSequence (\<lambda>fs. exec fs2) sequence index st \<and>
             fs2 ''list.txt''
               = Some (concat (map (\<lambda>k. ''file input'' @ show_nat k @ ''.mp4'' @ [CHR 0x0A])
                                   [0..<length (seq_clips sequence)])) \<and>
             (\<forall>k<length (seq_clips sequence).
                fs2 (''input'' @ show_nat k @ ''.mp4'') = clip_file (seq_clips sequence ! k)))) \<and>
   (\<not> ffmpegLoading st \<and> ffmpegLoaded st \<and> sequences st \<noteq> [] \<and>
    fst (batch_loop exec 0 (sequences st) [] (batch_start st)) = Inr archive \<longrightarrow>
      downloads (downloadAllSequences exec st)
        = downloads st @ [(''restitched-sequences.zip'', ZipBlob archive)] \<and>
      map fst archive
        = map (\<lambda>j. ''restitched '' @ show_nat (j + 1) @ ''.mp4'') [0..<length (sequences st)] \<and>
      (\<forall>j<length (sequences st).
         fst (exportSequence exec (sequences st ! j) (Some j)
                (snd (batch_loop exec 0 (take j (sequences st)) [] (batch_start st))))
           = Inr (Some (archive ! j))))"
proof -
  let ?start = "batch_start st"
  have ll: "list_line = (\<lambda>k. ''file input'' @ show_nat k @ ''.mp4'' @ [CHR 0x0A])"
    by (rule ext) (simp add: list_line_def)
  have a: "\<exists>fs2. exportSequence exec sequence index st
                = exportSequence (\<lambda>fs. exec fs2) sequence index st \<and>
             fs2 ''list.txt''
               = Some (concat (map (\<lambda>k. ''file input'' @ show_nat k @ ''.mp4'' @ [CHR 0x0A])
                                   [0..<length (seq_clips sequence)])) \<and>
             (\<forall>k<length (seq_clips sequence).
                fs2 (''input'' @ show_nat k @ ''.mp4'') = clip_file (seq_clips sequence ! k))"
    if "list_all (\<lambda>c. clip_file c \<noteq> None) (seq_clips sequence)"
    using exportSequence_exec_arg[OF that, of exec index st] unfolding ll input_name_def by simp
  have b: "downloads (downloadAllSequences exec st)
        = downloads st @ [(''restitched-sequences.zip'', ZipBlob archive)] \<and>
      map fst archive
        = map (\<lambda>j. ''restitched '' @ show_nat (j + 1) @ ''.mp4'') [0..<length (sequences st)] \<and>
      (\<forall>j<length (sequences st).
         fst (exportSequence exec (sequences st ! j) (Some j)
                (snd (batch_loop exec 0 (take j (sequences st)) [] ?start)))
           = Inr (Some (archive ! j)))"
    if h: "\<not> ffmpegLoading st \<and> ffmpegLoaded st \<and> sequences st \<noteq> [] \<and>
           fst (batch_loop exec 0 (sequences st) [] ?start) = Inr archive"
  proof -
    obtain st' where bl: "batch_loop exec 0 (sequences st) [] ?start = (Inr archive, st')"
      using h by (metis prod.collapse)
    have r: "\<not> ffmpegLoading ?start" "ffmpegLoaded ?start" "downloads ?start = downloads st"
      using h by (simp_all add: batch_start_def toast_success_def)
    from batch_loop_archive[OF bl r(1,2)] obtain new where
      n: "archive = [] @ new" "map fst new = map restitched_name [0..<0 + length (sequences st)]"
      by auto
    have rn: "restitched_name = (\<lambda>j. ''restitched '' @ show_nat (j + 1) @ ''.mp4'')"
      by (rule ext) (simp add: restitched_name_def)
    have 2: "map fst archive
        = map (\<lambda>j. ''restitched '' @ show_nat (j + 1) @ ''.mp4'') [0..<length (sequences st)]"
      using n unfolding rn by simp
    have d: "downloads st' = downloads st" using batch_loop_frame[OF bl r(1,2)] r(3) by simp
    have 1: "downloads (downloadAllSequences exec st)
            = downloads st @ [(''restitched-sequences.zip'', ZipBlob archive)]"
      using h bl d by (simp add: downloadAllSequences_def toast_success_def)
    have 3: "\<forall>j<length (sequences st).
         fst (exportSequence exec (sequences st ! j) (Some j)
                (snd (batch_loop exec 0 (take j (sequences st)) [] ?start)))
           = Inr (Some (archive ! j))"
      using batch_loop_entry[OF bl r(1,2)] by blast
    show ?thesis using 1 2 3 by blast
  qed
  show ?thesis using a b by blast
qed


theorem export_order_witness:
  "list_all (\<lambda>c. clip_file c \<noteq> None) (seq_clips seqA) \<and>
   (\<exists>fs2. exportSequence execA seqA None page0 = exportSequence (\<lambda>fs. execA fs2) seqA None page0 \<and>
          fs2 ''list.txt''
            = Some (''file input0.mp4'' @ [CHR 0x0A] @ ''file input1.mp4'' @ [CHR 0x0A] @
                    ''file input2.mp4'' @ [CHR 0x0A]) \<and>
          fs2 ''input0.mp4'' = Some ''HA'' \<and> fs2 ''input1.mp4'' = Some ''PA'' \<and>
          fs2 ''input2.mp4'' = Some ''CA'') \<and>
   fst (batch_loop execA 0 [seqA, seqB] [] (batch_start (page0\<lparr>sequences := [seqA, seqB]\<rparr>)))
     = Inr [(''restitched 1.mp4'', ''HAPACA''), (''restitched 2.mp4'', ''HAPBCB'')] \<and>
   downloads (downloadAllSequences execA (page0\<lparr>sequences := [seqA, seqB]\<rparr>))
     = [(''restitched-sequences.zip'',
         ZipBlob [(''restitched 1.mp4'', ''HAPACA''), (''restitched 2.mp4'', ''HAPBCB'')])] \<and>
   map (\<lambda>j. ''restitched '' @ show_nat (j + 1) @ ''.mp4'') [0..<2]
     = [''restitched 1.mp4'', ''restitched 2.mp4''] \<and>
   fst (exportSequence execA seqA (Some 0) (batch_start (page0\<lparr>sequences := [seqA, seqB]\<rparr>)))
     = Inr (Some (''restitched 1.mp4'', ''HAPACA'')) \<and>
   fst (exportSequence execA seqB (Some 1)
          (snd (batch_loop execA 0 [seqA] [] (batch_start (page0\<lparr>sequences := [seqA, seqB]\<rparr>)))))
     = Inr (Some (''restitched 2.mp4'', ''HAPBCB''))"
proof -
  let ?st = "page0\<lparr>sequences := [seqA, seqB]\<rparr>"
  let ?arch = "[(''restitched 1.mp4'', ''HAPACA''), (''restitched 2.mp4'', ''HAPBCB'')]"
  have h1: "list_all (\<lambda>c. clip_file c \<noteq> None) (seq_clips seqA)"
    by (simp add: seqA_def hookA_def pointA_def ctaA_def)
  have h2: "\<not> ffmpegLoading ?st \<and> ffmpegLoaded ?st \<and> sequences ?st \<noteq> [] \<and>
    fst (batch_loop execA 0 (sequences ?st) [] (batch_start ?st)) = Inr ?arch"
    by code_simp
  have sq: "sequences ?st = [seqA, seqB]" by simp
  have l: "length (seq_clips seqA) = 3" by (simp add: seqA_def)
  have c: "clip_file (seq_clips seqA ! 0) = Some ''HA''" "clip_file (seq_clips seqA ! 1) = Some ''PA''"
    "clip_file (seq_clips seqA ! 2) = Some ''CA''"
    by (simp_all add: seqA_def hookA_def pointA_def ctaA_def)
  have u: "[0..<3] = [0, 1, 2]" "[0..<2] = [0, 1]" by code_simp+
  have sn: "show_nat 0 = ''0''" "show_nat 1 = ''1''" "show_nat 2 = ''2''"
    "show_nat (Suc 0) = ''1''"
    by (simp_all add: show_nat.simps digit_char_def)
  note a = export_order[of seqA execA None page0, THEN conjunct1, THEN mp, OF h1]
  note b = export_order[of seqA execA None ?st ?arch, THEN conjunct2, THEN mp, OF h2]
  from a obtain fs2 where f: "exportSequence execA seqA None page0 = exportSequence (\<lambda>fs. execA fs2) seqA None page0"
     "fs2 ''list.txt'' = Some (concat (map (\<lambda>k. ''file input'' @ show_nat k @ ''.mp4'' @ [CHR 0x0A])
                                   [0..<length (seq_clips seqA)]))"
     "\<forall>k<length (seq_clips seqA). fs2 (''input'' @ show_nat k @ ''.mp4'') = clip_file (seq_clips seqA ! k)"
    by blast
  have m: "fs2 ''list.txt''
            = Some (''file input0.mp4'' @ [CHR 0x0A] @ ''file input1.mp4'' @ [CHR 0x0A] @
                    ''file input2.mp4'' @ [CHR 0x0A])"
    using f(2) unfolding l u by (simp add: sn)
  have "fs2 (''input'' @ show_nat 0 @ ''.mp4'') = Some ''HA''"
    "fs2 (''input'' @ show_nat 1 @ ''.mp4'') = Some ''PA''"
    "fs2 (''input'' @ show_nat 2 @ ''.mp4'') = Some ''CA''"
    using f(3) c unfolding l by simp_all
  then have i: "fs2 ''input0.mp4'' = Some ''HA''" "fs2 ''input1.mp4'' = Some ''PA''"
    "fs2 ''input2.mp4'' = Some ''CA''"
    by (simp_all add: sn)
  have A: "\<exists>fs2. exportSequence execA seqA None page0 = exportSequence (\<lambda>fs. execA fs2) seqA None page0 \<and>
          fs2 ''list.txt''
            = Some (''file input0.mp4'' @ [CHR 0x0A] @ ''file input1.mp4'' @ [CHR 0x0A] @
                    ''file input2.mp4'' @ [CHR 0x0A]) \<and>
          fs2 ''input0.mp4'' = Some ''HA'' \<and> fs2 ''input1.mp4'' = Some ''PA'' \<and>
          fs2 ''input2.mp4'' = Some ''CA''"
    using f(1) m i by blast
  have B: "downloads (downloadAllSequences execA ?st)
     = [(''restitched-sequences.zip'', ZipBlob ?arch)]"
    using b by (simp add: page0_def)
  have b2: "map fst ?arch
      = map (\<lambda>j. ''restitched '' @ show_nat (j + 1) @ ''.mp4'') [0..<length (sequences ?st)]"
    using b by blast
  have len: "length (sequences ?st) = 2" by simp
  have C0: "map (\<lambda>j. ''restitched '' @ show_nat (j + 1) @ ''.mp4'') [0..<2] = map fst ?arch"
    using b2[unfolded len] by (rule sym)
  have mf: "map fst ?arch = [''restitched 1.mp4'', ''restitched 2.mp4'']" by simp
  have C: "map (\<lambda>j. ''restitched '' @ show_nat (j + 1) @ ''.mp4'') [0..<2]
     = [''restitched 1.mp4'', ''restitched 2.mp4'']"
    using C0 mf by (rule trans)
  have e: "\<forall>j<length [seqA, seqB].
         fst (exportSequence execA ([seqA, seqB] ! j) (Some j)
                (snd (batch_loop execA 0 (take j [seqA, seqB]) [] (batch_start ?st))))
           = Inr (Some (?arch ! j))"
    using b unfolding sq by blast
  have D: "fst (exportSequence execA seqA (Some 0) (batch_start ?st))
     = Inr (Some (''restitched 1.mp4'', ''HAPACA''))"
    using e[rule_format, of 0] by simp
  have E: "fst (exportSequence execA seqB (Some 1) (snd (batch_loop execA 0 [seqA] [] (batch_start ?st))))
     = Inr (Some (''restitched 2.mp4'', ''HAPBCB''))"
    using e[rule_format, of 1] by simp
  have h2': "fst (batch_loop execA 0 [seqA, seqB] [] (batch_start ?st)) = Inr ?arch"
    using h2 by simp
  show ?thesis using h1 A h2' B C D E by blast
qed

subsection \<open>A failing export in a batch\<close>

text \<open>
  C5. When the exports of the sequences before \<open>s\<close> succeed and the export
  of \<open>s\<close> throws \<open>e\<close>, \<open>downloadAllSequences\<close> ends in the state that the failing
  export left, with \<open>e\<close> logged as batch download error, the toast
  \<open>Failed to download all sequences\<close> and the loading flag reset: the sequences after
  \<open>s\<close> are not exported and nothing is downloaded. The report carries the error, not
  the index of the sequence.
\<close>

theorem batch_failure:
  assumes "\<not> ffmpegLoading st" and "ffmpegLoaded st" and "sequences st = pre @ s # post"
    and "fst (batch_loop exec 0 pre [] (batch_start st)) = Inr a"
    and "fst (exportSequence exec s (Some (length pre))
                (snd (batch_loop exec 0 pre [] (batch_start st)))) = Inl e"
  shows "downloadAllSequences exec st
           = (toast_error ''Failed to download all sequences''
                (console_error ''Batch download error:'' e
                   (snd (exportSequence exec s (Some (length pre))
                           (snd (batch_loop exec 0 pre [] (batch_start st)))))))
             \<lparr>loading := False\<rparr> \<and>
         downloads (downloadAllSequences exec st) = downloads st"
proof -
  obtain st1 where p: "batch_loop exec 0 pre [] (batch_start st) = (Inr a, st1)"
    using assms(4) by (metis prod.collapse)
  obtain st2 where x: "exportSequence exec s (Some (length pre)) st1 = (Inl e, st2)"
    using assms(5) p by (metis prod.collapse snd_conv)
  have r: "\<not> ffmpegLoading (batch_start st)" "ffmpegLoaded (batch_start st)"
    "downloads (batch_start st) = downloads st"
    using assms(1,2) by (simp_all add: batch_start_def toast_success_def)
  have "batch_loop exec 0 (pre @ s # post) [] (batch_start st) = (Inl e, st2)"
    by (subst batch_loop_append) (simp add: p x)
  then have w: "batch_loop exec 0 (sequences st) [] (batch_start st) = (Inl e, st2)"
    using assms(3) by simp
  have s2: "snd (exportSequence exec s (Some (length pre))
                  (snd (batch_loop exec 0 pre [] (batch_start st)))) = st2"
    by (simp add: p x)
  have 1: "downloadAllSequences exec st
           = (toast_error ''Failed to download all sequences''
                (console_error ''Batch download error:'' e st2))\<lparr>loading := False\<rparr>"
    using assms(1,2,3) w by (simp add: downloadAllSequences_def)
  have "downloads st2 = downloads st" using batch_loop_frame[OF w r(1,2)] r(3) by simp
  then have 2: "downloads (downloadAllSequences exec st) = downloads st"
    by (simp add: 1 toast_error_def console_error_def)
  show ?thesis using 1 2 s2 by simp
qed

theorem batch_failure_witness:
  "\<not> ffmpegLoading (page0\<lparr>sequences := [seqA, seqLost, seqB]\<rparr>) \<and>
   ffmpegLoaded (page0\<lparr>sequences := [seqA, seqLost, seqB]\<rparr>) \<and>
   sequences (page0\<lparr>sequences := [seqA, seqLost, seqB]\<rparr>) = [seqA] @ seqLost # [seqB] \<and>
   fst (batch_loop execA 0 [seqA] [] (batch_start (page0\<lparr>sequences := [seqA, seqLost, seqB]\<rparr>)))
     = Inr [(''restitched 1.mp4'', ''HAPACA'')] \<and>
   fst (exportSequence execA seqLost (Some (length [seqA]))
          (snd (batch_loop execA 0 [seqA] [] (batch_start (page0\<lparr>sequences := [seqA, seqLost, seqB]\<rparr>)))))
     = Inl (MissingFileError ''sp lost'') \<and>
   downloads (downloadAllSequences execA (page0\<lparr>sequences := [seqA, seqLost, seqB]\<rparr>)) = []"
proof -
  let ?st = "page0\<lparr>sequences := [seqA, seqLost, seqB]\<rparr>"
  have h1: "\<not> ffmpegLoading ?st" and h2: "ffmpegLoaded ?st"
    and h3: "sequences ?st = [seqA] @ seqLost # [seqB]"
    by (simp_all add: page0_def)
  have h4: "fst (batch_loop execA 0 [seqA] [] (batch_start ?st)) = Inr [(''restitched 1.mp4'', ''HAPACA'')]"
    by code_simp
  have h5: "fst (exportSequence execA seqLost (Some (length [seqA]))
          (snd (batch_loop execA 0 [seqA] [] (batch_start ?st)))) = Inl (MissingFileError ''sp lost'')"
    by code_simp
  have "downloads (downloadAllSequences execA ?st) = downloads ?st"
    using batch_failure[OF h1 h2 h3 h4 h5] by blast
  then have c: "downloads (downloadAllSequences execA ?st) = []" by (simp add: page0_def)
  show ?thesis using h1 h2 h3 h4 h5 c by blast
qed

text \<open>
  Two batches whose export fails at index 1 and at index 2: the toasts, the console and
  the error are the same, so the failure does not tell the index.
\<close>

theorem batch_failure_index_not_reported:
  "fst (batch_loop execA 0 (take 1 [seqA, seqLost, seqB]) [] (batch_start (page0\<lparr>sequences := [seqA, seqLost, seqB]\<rparr>)))
     = Inr [(''restitched 1.mp4'', ''HAPACA'')] \<and>
   fst (batch_loop execA 0 (take 2 [seqA, seqLost, seqB]) [] (batch_start (page0\<lparr>sequences := [seqA, seqLost, seqB]\<rparr>)))
     = Inl (MissingFileError ''sp lost'') \<and>
   fst (batch_loop execA 0 (take 2 [seqA, seqB, seqLost]) [] (batch_start (page0\<lparr>sequences := [seqA, seqB, seqLost]\<rparr>)))
     = Inr [(''restitched 1.mp4'', ''HAPACA''), (''restitched 2.mp4'', ''HAPBCB'')] \<and>
   fst (batch_loop execA 0 (take 3 [seqA, seqB, seqLost]) [] (batch_start (page0\<lparr>sequences := [seqA, seqB, seqLost]\<rparr>)))
     = Inl (MissingFileError ''sp lost'') \<and>
   toasts (downloadAllSequences execA (page0\<lparr>sequences := [seqA, seqLost, seqB]\<rparr>))
     = [ToastSuccess ''Starting batch download...'', ToastSuccess ''Starting export...'',
        ToastError ''Failed to download all sequences''] \<and>
   toasts (downloadAllSequences execA (page0\<lparr>sequences := [seqA, seqB, seqLost]\<rparr>))
     = [ToastSuccess ''Starting batch download...'', ToastSuccess ''Starting export...'',
        ToastError ''Failed to download all sequences''] \<and>
   console (downloadAllSequences execA (page0\<lparr>sequences := [seqA, seqLost, seqB]\<rparr>))
     = [ConsoleError ''Export error:'' (MissingFileError ''sp lost''),
        ConsoleError ''Batch download error:'' (MissingFileError ''sp lost'')] \<and>
   console (downloadAllSequences execA (page0\<lparr>sequences := [seqA, seqB, seqLost]\<rparr>))
     = [ConsoleError ''Export error:'' (MissingFileError ''sp lost''),
        ConsoleError ''Batch download error:'' (MissingFileError ''sp lost'')] \<and>
   downloads (downloadAllSequences execA (page0\<lparr>sequences := [seqA, seqLost, seqB]\<rparr>)) = [] \<and>
   downloads (downloadAllSequences execA (page0\<lparr>sequences := [seqA, seqB, seqLost]\<rparr>)) = []"
  by code_simp

subsection \<open>What an export leaves in the file system\<close>

text \<open>
  C1. An export with an index returns before the deleting code: the three staged inputs,
  the list and the output stay in the file system. An export that throws (a clip without
  a file, or the service rejecting) skips the deleting code as well: what was staged
  stays. Only the export without an index that succeeds removes its files.
\<close>

theorem export_leaves_staged_files:
  "fst (exportSequence execA seqA (Some 1) page0) = Inr (Some (''restitched 2.mp4'', ''HAPACA'')) \<and>
   map (files (snd (exportSequence execA seqA (Some 1) page0)))
       [''input0.mp4'', ''input1.mp4'', ''input2.mp4'', ''list.txt'', ''output.mp4'']
     = [Some ''HA'', Some ''PA'', Some ''CA'',
        Some (list_line 0 @ list_line 1 @ list_line 2), Some ''HAPACA''] \<and>
   fst (exportSequence execA seqLost None page0) = Inl (MissingFileError ''sp lost'') \<and>
   map (files (snd (exportSequence execA seqLost None page0)))
       [''input0.mp4'', ''input1.mp4'', ''input2.mp4'', ''list.txt'', ''output.mp4'']
     = [Some ''HA'', None, None, None, None] \<and>
   fst (exportSequence execFail seqA None page0) = Inl (FFmpegError ''Conversion failed!'') \<and>
   map (files (snd (exportSequence execFail seqA None page0)))
       [''input0.mp4'', ''input1.mp4'', ''input2.mp4'', ''list.txt'', ''output.mp4'']
     = [Some ''HA'', Some ''PA'', Some ''CA'', Some (list_line 0 @ list_line 1 @ list_line 2), None] \<and>
   fst (exportSequence execA seqA None page0) = Inr None \<and>
   map (files (snd (exportSequence execA seqA None page0)))
       [''input0.mp4'', ''input1.mp4'', ''input2.mp4'', ''list.txt'', ''output.mp4'']
     = [None, None, None, None, None]"
  by code_simp

section \<open>Properties of the clip registry\<close>

lemma update_refs_frame:
  "update_refs clipId newType rs objs nxt = (rs', objs', nxt') \<Longrightarrow>
   \<forall>r \<in> dom objs. r < nxt \<Longrightarrow>
   nxt \<le> nxt' \<and> (\<forall>r. r < nxt \<longrightarrow> objs' r = objs r) \<and> (\<forall>r \<in> dom objs'. r < nxt')"
proof (induction rs arbitrary: objs nxt rs' objs' nxt')
  case Nil
  then show ?case by simp
next
  case (Cons r rs)
  show ?case
  proof (cases "objs r")
    case None
    then obtain rs0 where "update_refs clipId newType rs objs nxt = (rs0, objs', nxt')"
      using Cons.prems(1) by (auto split: prod.splits)
    from Cons.IH[OF this Cons.prems(2)] show ?thesis .
  next
    case (Some clip)
    show ?thesis
    proof (cases "clip_id clip = clipId")
      case False
      then obtain rs0 where "update_refs clipId newType rs objs nxt = (rs0, objs', nxt')"
        using Cons.prems(1) Some by (auto split: prod.splits)
      from Cons.IH[OF this Cons.prems(2)] show ?thesis .
    next
      case True
      let ?objs = "objs(nxt \<mapsto> clip\<lparr>clip_type := newType\<rparr>)"
      from True obtain rs0 where u: "update_refs clipId newType rs ?objs (nxt + 1) = (rs0, objs', nxt')"
        using Cons.prems(1) Some by (auto split: prod.splits)
      have d: "\<forall>r \<in> dom ?objs. r < nxt + 1"
      proof
        fix r assume "r \<in> dom ?objs"
        then have "r = nxt \<or> r \<in> dom objs" by (auto split: if_splits)
        then show "r < nxt + 1" using Cons.prems(2) by (auto simp: less_Suc_eq)
      qed
      from Cons.IH[OF u d] have i: "nxt + 1 \<le> nxt'" "\<forall>r. r < nxt + 1 \<longrightarrow> objs' r = ?objs r"
        "\<forall>r \<in> dom objs'. r < nxt'" by auto
      have "objs' r = objs r" if "r < nxt" for r
        using i(2) that by simp
      then show ?thesis using i(1,3) by simp
    qed
  qed
qed

lemma sequence_view_cong:
  "\<forall>r \<in> set (rseq_clips s). objects reg' r = objects reg r \<Longrightarrow> sequence_view reg' s = sequence_view reg s"
  by (simp add: sequence_view_def)

text \<open>
  C9. In a well-formed store, changing a clip's role, removing a clip and removing all
  clips leave every generated sequence as it was: the same list of sequences, each with
  the clip records (roles and durations included) that its references pointed to before.
  \<open>updateClipType\<close> puts the changed clip into a new object and never writes to an
  existing one; the removals only change the array of available clips. Each operation
  keeps the store well formed.
\<close>

theorem registry_keeps_sequences:
  assumes "allocated reg"
  shows "map (sequence_view (updateClipType clipId newType reg))
             (sequenceRefs (updateClipType clipId newType reg))
           = map (sequence_view reg) (sequenceRefs reg) \<and>
         allocated (updateClipType clipId newType reg) \<and>
         map (sequence_view (removeClip clipId reg)) (sequenceRefs (removeClip clipId reg))
           = map (sequence_view reg) (sequenceRefs reg) \<and>
         allocated (removeClip clipId reg) \<and>
         map (sequence_view (removeAllClips reg)) (sequenceRefs (removeAllClips reg))
           = map (sequence_view reg) (sequenceRefs reg) \<and>
         allocated (removeAllClips reg)"
proof -
  obtain rs objs nxt where
    u: "update_refs clipId newType (availableClipRefs reg) (objects reg) (next_ref reg) = (rs, objs, nxt)"
    by (metis prod_cases3)
  have d: "\<forall>r \<in> dom (objects reg). r < next_ref reg" using assms by (simp add: allocated_def)
  have sq: "\<forall>s \<in> set (sequenceRefs reg). \<forall>r \<in> set (rseq_clips s). r \<in> dom (objects reg)"
    using assms by (simp add: allocated_def)
  note f = update_refs_frame[OF u d]
  have up: "updateClipType clipId newType reg
              = reg\<lparr>objects := objs, next_ref := nxt, availableClipRefs := rs\<rparr>"
    by (simp add: updateClipType_def u)
  have same: "objs r = objects reg r" if "s \<in> set (sequenceRefs reg)" "r \<in> set (rseq_clips s)" for s r
    using f d sq that by blast
  have 1: "map (sequence_view (updateClipType clipId newType reg))
             (sequenceRefs (updateClipType clipId newType reg))
           = map (sequence_view reg) (sequenceRefs reg)"
    unfolding up using same by (auto intro!: sequence_view_cong)
  have 2: "allocated (updateClipType clipId newType reg)"
    unfolding up allocated_def using f sq same by (auto simp: domIff)
  have 3: "map (sequence_view (removeClip clipId reg)) (sequenceRefs (removeClip clipId reg))
           = map (sequence_view reg) (sequenceRefs reg)"
    by (simp add: removeClip_def sequence_view_def)
  have 4: "allocated (removeClip clipId reg)" using assms by (simp add: removeClip_def allocated_def)
  have 5: "map (sequence_view (removeAllClips reg)) (sequenceRefs (removeAllClips reg))
           = map (sequence_view reg) (sequenceRefs reg)"
    by (simp add: removeAllClips_def sequence_view_def)
  have 6: "allocated (removeAllClips reg)" using assms by (simp add: removeAllClips_def allocated_def)
  show ?thesis using 1 2 3 4 5 6 by blast
qed

theorem registry_keeps_sequences_witness:
  "allocated regA \<and>
   map (sequence_view (updateClipType ''clip-2-0.2'' Hook regA))
       (sequenceRefs (updateClipType ''clip-2-0.2'' Hook regA)) = [seqA] \<and>
   availableClipRefs (updateClipType ''clip-2-0.2'' Hook regA) = [0, 3, 2] \<and>
   objects (updateClipType ''clip-2-0.2'' Hook regA) 3 = Some (pointA\<lparr>clip_type := Hook\<rparr>) \<and>
   map (sequence_view (removeClip ''clip-2-0.2'' regA)) (sequenceRefs (removeClip ''clip-2-0.2'' regA))
     = [seqA] \<and>
   availableClipRefs (removeClip ''clip-2-0.2'' regA) = [0, 2] \<and>
   map (sequence_view (removeAllClips regA)) (sequenceRefs (removeAllClips regA)) = [seqA]"
proof -
  have a: "allocated regA" by (simp add: allocated_def regA_def)
  have v: "map (sequence_view regA) (sequenceRefs regA) = [seqA]"
    by (simp add: regA_def sequence_view_def seqA_def)
  have r: "availableClipRefs (updateClipType ''clip-2-0.2'' Hook regA) = [0, 3, 2]"
    "objects (updateClipType ''clip-2-0.2'' Hook regA) 3 = Some (pointA\<lparr>clip_type := Hook\<rparr>)"
    "availableClipRefs (removeClip ''clip-2-0.2'' regA) = [0, 2]"
    by (simp_all add: updateClipType_def removeClip_def regA_def hookA_def pointA_def ctaA_def)
  show ?thesis
    using a r registry_keeps_sequences[OF a, of "''clip-2-0.2''" Hook] v by simp
qed

end
